theory Spec2Isabelle
  imports Main "HOL-Library.Monad_Syntax" "HOL-Library.Multiset"
begin

section \<open>The playlist container of src/src/App.tsx (TrackNode, MusicLinkedList)\<close>

text \<open>
  The container is a circular doubly linked list of heap objects. Object references are
  addresses into an explicit store (a list of nodes; the address of a node is its index,
  a new object gets the next free index, and nothing is ever freed: garbage collection
  cannot be observed). A nullable reference \<open>TrackNode | null\<close> is an \<open>addr option\<close>.

  Every operation that dereferences a reference returns an \<open>option\<close>: \<open>None\<close> means
  that the call does not return normally, either because the source dereferences
  \<open>null\<close> (a TypeError) or because one of its do-while loops never comes back to
  \<open>head\<close>.
\<close>

type_synonym addr = nat

subsection \<open>Numbers\<close>

text \<open>
  The source's \<open>number\<close> is an IEEE-754 double. The model follows exactly the numbers
  that are safe integers (\<open>Number.isSafeInteger\<close>: the integers of magnitude at most
  \<open>2^53 - 1\<close>), as \<open>Tracked i\<close>. About any other number (a fraction, a larger
  magnitude, NaN, an infinity), and about a string computed from one, it says nothing:
  \<open>Untracked\<close>. On safe integers the operations the source uses are exact:
  \<^item> \<open>a + b\<close>: when the sum is a safe integer it is a double, and IEEE addition returns
    the double nearest to the sum; otherwise the result is not followed;
  \<^item> \<open>a % b\<close> is exact, the remainder with the sign of the dividend (\<open>js_rem\<close>);
  \<^item> \<open>Math.floor(a / b)\<close> for \<open>b\<close> 3600 or 60 is \<open>a div b\<close>: the quotient is rounded
    to a double before the floor is taken, but it is below \<open>2^42\<close> in magnitude, where
    rounding moves a number by at most \<open>2^-12\<close>, less than the \<open>1/3600\<close> that a
    quotient which is not an integer keeps from the next integer;
  \<^item> \<open>Number.prototype.toString\<close> prints an integer of magnitude below \<open>10^21\<close> as
    its decimal numeral (and switches to exponent notation from there on: not followed).
\<close>

datatype 'a tracked = Tracked 'a | Untracked

type_synonym number = "int tracked"

definition isSafeInteger :: "int \<Rightarrow> bool" where
  "isSafeInteger i \<longleftrightarrow> \<bar>i\<bar> \<le> 9007199254740991"

definition js_add :: "number \<Rightarrow> number \<Rightarrow> number" where
  "js_add x y =
     (case x of
        Untracked \<Rightarrow> Untracked
      | Tracked a \<Rightarrow>
          (case y of
             Untracked \<Rightarrow> Untracked
           | Tracked b \<Rightarrow>
               if isSafeInteger a \<and> isSafeInteger b \<and> isSafeInteger (a + b)
               then Tracked (a + b) else Untracked))"

definition js_rem :: "int \<Rightarrow> int \<Rightarrow> int" where
  "js_rem a b = sgn a * (\<bar>a\<bar> mod \<bar>b\<bar>)"

text \<open>Sequencing: a value computed from one that is not followed is not followed.\<close>

definition tracked_bind :: "'a tracked \<Rightarrow> ('a \<Rightarrow> 'b tracked) \<Rightarrow> 'b tracked" where
  "tracked_bind x f = (case x of Tracked v \<Rightarrow> f v | Untracked \<Rightarrow> Untracked)"

subsection \<open>Tracks, nodes, the list\<close>

text \<open>The object literal passed to \<open>addTrack\<close> and to the constructor of \<open>TrackNode\<close>
  (field \<open>_id\<close> is \<open>t_id\<close>).\<close>

record track =
  t_id :: string
  t_title :: string
  t_artist :: string
  t_duration :: number
  t_audioUrl :: string
  t_coverUrl :: "string option"
  t_genre :: "string option"

text \<open>class TrackNode (fields \<open>id\<close> and \<open>next\<close> are \<open>id_n\<close> and \<open>next_n\<close>).\<close>

record TrackNode =
  id_n :: string
  title :: string
  artist :: string
  duration :: number
  audioUrl :: string
  coverUrl :: "string option"
  genre :: "string option"
  next_n :: "addr option"
  prev :: "addr option"

definition TrackNode_new :: "track \<Rightarrow> TrackNode" where
  "TrackNode_new t =
     \<lparr>id_n = t_id t, title = t_title t, artist = t_artist t, duration = t_duration t,
      audioUrl = t_audioUrl t, coverUrl = t_coverUrl t, genre = t_genre t,
      next_n = None, prev = None\<rparr>"

text \<open>The object literal \<open>{_id: track.id, title: track.title, ...}\<close> that \<open>shuffle\<close> and
  \<open>restoreOrder\<close> build from a node.\<close>

definition track_of_node :: "TrackNode \<Rightarrow> track" where
  "track_of_node n =
     \<lparr>t_id = id_n n, t_title = title n, t_artist = artist n, t_duration = duration n,
      t_audioUrl = audioUrl n, t_coverUrl = coverUrl n, t_genre = genre n\<rparr>"

text \<open>class MusicLinkedList. \<open>size\<close> (here \<open>size_l\<close>) starts at 0 and is only changed by
  \<open>++\<close>, by \<open>--\<close> behind the tests \<open>size === 0\<close> and \<open>size === 1\<close>, and by \<open>= 0\<close>, so
  it is a natural number. \<open>originalOrder\<close> is an array of node references.\<close>

record MusicLinkedList =
  heap :: "TrackNode list"
  head :: "addr option"
  current :: "addr option"
  size_l :: nat
  isShuffled :: bool
  originalOrder :: "addr list"

text \<open>\<open>new MusicLinkedList()\<close>, in a store that already holds the objects \<open>h\<close>.\<close>

definition new_list :: "TrackNode list \<Rightarrow> MusicLinkedList" where
  "new_list h =
     \<lparr>heap = h, head = None, current = None, size_l = 0, isShuffled = False,
      originalOrder = []\<rparr>"

subsection \<open>Reading and writing the store\<close>

definition deref :: "TrackNode list \<Rightarrow> addr \<Rightarrow> TrackNode option" where
  "deref h a = (if a < length h then Some (h ! a) else None)"

definition assign_next :: "TrackNode list \<Rightarrow> addr \<Rightarrow> addr option \<Rightarrow> TrackNode list option" where
  "assign_next h a v = (if a < length h then Some (h[a := (h ! a)\<lparr>next_n := v\<rparr>]) else None)"

definition assign_prev :: "TrackNode list \<Rightarrow> addr \<Rightarrow> addr option \<Rightarrow> TrackNode list option" where
  "assign_prev h a v = (if a < length h then Some (h[a := (h ! a)\<lparr>prev := v\<rparr>]) else None)"

subsection \<open>getAllTracks, updateOriginalOrder, clear, addTrack\<close>

text \<open>The do-while loop of \<open>getAllTracks\<close>: push \<open>node\<close>, move to \<open>node.next\<close>, go on
  while that is not \<open>head\<close>. A \<open>null\<close> successor makes the next round throw.\<close>

partial_function (option) getAllTracks_loop ::
  "TrackNode list \<Rightarrow> addr \<Rightarrow> addr \<Rightarrow> addr list \<Rightarrow> addr list option" where
  "getAllTracks_loop h hd_a node tracks =
     do {
       n \<leftarrow> deref h node;
       nx \<leftarrow> next_n n;
       if nx \<noteq> hd_a then getAllTracks_loop h hd_a nx (tracks @ [node])
       else Some (tracks @ [node])
     }"

declare getAllTracks_loop.simps [code]

definition getAllTracks :: "MusicLinkedList \<Rightarrow> addr list option" where
  "getAllTracks s =
     (case head s of
        None \<Rightarrow> Some []
      | Some hd_a \<Rightarrow> getAllTracks_loop (heap s) hd_a hd_a [])"

definition updateOriginalOrder :: "MusicLinkedList \<Rightarrow> MusicLinkedList option" where
  "updateOriginalOrder s =
     (if \<not> isShuffled s then
        do { ts \<leftarrow> getAllTracks s; Some (s\<lparr>originalOrder := ts\<rparr>) }
      else Some s)"

definition clear :: "MusicLinkedList \<Rightarrow> MusicLinkedList" where
  "clear s = s\<lparr>head := None, current := None, size_l := 0\<rparr>"

definition addTrack :: "track \<Rightarrow> MusicLinkedList \<Rightarrow> MusicLinkedList option" where
  "addTrack t s =
     (let newNode = length (heap s);
          h0 = heap s @ [TrackNode_new t]
      in do {
        s1 \<leftarrow>
          (case head s of
             None \<Rightarrow>
               do {
                 h1 \<leftarrow> assign_next h0 newNode (Some newNode);
                 h2 \<leftarrow> assign_prev h1 newNode (Some newNode);
                 Some (s\<lparr>heap := h2, head := Some newNode, current := Some newNode\<rparr>)
               }
           | Some hd_a \<Rightarrow>
               do {
                 hn \<leftarrow> deref h0 hd_a;
                 tail \<leftarrow> prev hn;
                 h1 \<leftarrow> assign_next h0 newNode (Some hd_a);
                 h2 \<leftarrow> assign_prev h1 newNode (Some tail);
                 h3 \<leftarrow> assign_next h2 tail (Some newNode);
                 h4 \<leftarrow> assign_prev h3 hd_a (Some newNode);
                 Some (s\<lparr>heap := h4\<rparr>)
               });
        updateOriginalOrder (s1\<lparr>size_l := size_l s1 + 1\<rparr>)
      })"

subsection \<open>Navigation: nextTrack, prevTrack, getCurrentTrack, setCurrentTrack\<close>

definition nextTrack :: "MusicLinkedList \<Rightarrow> (addr option \<times> MusicLinkedList) option" where
  "nextTrack s =
     (case current s of
        None \<Rightarrow> Some (None, s)
      | Some c \<Rightarrow> do { n \<leftarrow> deref (heap s) c; Some (next_n n, s\<lparr>current := next_n n\<rparr>) })"

definition prevTrack :: "MusicLinkedList \<Rightarrow> (addr option \<times> MusicLinkedList) option" where
  "prevTrack s =
     (case current s of
        None \<Rightarrow> Some (None, s)
      | Some c \<Rightarrow> do { n \<leftarrow> deref (heap s) c; Some (prev n, s\<lparr>current := prev n\<rparr>) })"

definition getCurrentTrack :: "MusicLinkedList \<Rightarrow> addr option" where
  "getCurrentTrack s = current s"

text \<open>The search loop that \<open>setCurrentTrack\<close> and \<open>removeTrack\<close> both contain: starting at
  \<open>head\<close>, stop at the first node whose \<open>id\<close> is \<open>trackId\<close> (result \<open>Some node\<close>), or
  when \<open>node.next\<close> is \<open>head\<close> again (result \<open>None\<close>, the source's \<open>null\<close>).\<close>

partial_function (option) find_loop ::
  "TrackNode list \<Rightarrow> addr \<Rightarrow> addr \<Rightarrow> string \<Rightarrow> addr option option" where
  "find_loop h hd_a node trackId =
     do {
       n \<leftarrow> deref h node;
       if id_n n = trackId then Some (Some node)
       else do {
         nx \<leftarrow> next_n n;
         if nx \<noteq> hd_a then find_loop h hd_a nx trackId else Some None
       }
     }"

declare find_loop.simps [code]

definition setCurrentTrack ::
  "string \<Rightarrow> MusicLinkedList \<Rightarrow> (addr option \<times> MusicLinkedList) option" where
  "setCurrentTrack trackId s =
     (case head s of
        None \<Rightarrow> Some (None, s)
      | Some hd_a \<Rightarrow>
          do {
            r \<leftarrow> find_loop (heap s) hd_a hd_a trackId;
            case r of
              Some node \<Rightarrow> Some (Some node, s\<lparr>current := Some node\<rparr>)
            | None \<Rightarrow> Some (None, s)
          })"

subsection \<open>shuffle and restoreOrder\<close>

text \<open>\<open>[tracks[i], tracks[j]] = [tracks[j], tracks[i]]\<close>\<close>

definition swap :: "'a list \<Rightarrow> nat \<Rightarrow> nat \<Rightarrow> 'a list" where
  "swap xs i j = xs[i := xs ! j, j := xs ! i]"

text \<open>The Fisher-Yates loop \<open>for (let i = tracks.length - 1; i > 0; i--)\<close>, started at
  \<open>i\<close>. \<open>Math.floor(Math.random() * (i + 1))\<close> is some index in \<open>0..i\<close>; the draws
  are a parameter \<open>rnd\<close> (the draw made in round \<open>i\<close> is \<open>rnd i\<close>, reduced into
  \<open>0..i\<close>), so that a statement for all \<open>rnd\<close> is a statement for every outcome of
  the random generator.\<close>

fun fisherYates :: "(nat \<Rightarrow> nat) \<Rightarrow> nat \<Rightarrow> 'a list \<Rightarrow> 'a list" where
  "fisherYates rnd 0 tracks = tracks"
| "fisherYates rnd (Suc k) tracks =
     (let i = Suc k; j = rnd i mod (i + 1) in fisherYates rnd k (swap tracks i j))"

text \<open>\<open>tracks.forEach(track => this.addTrack({_id: track.id, ...}))\<close>\<close>

fun addTrack_forEach :: "addr list \<Rightarrow> MusicLinkedList \<Rightarrow> MusicLinkedList option" where
  "addTrack_forEach [] s = Some s"
| "addTrack_forEach (a # as) s =
     do {
       n \<leftarrow> deref (heap s) a;
       s' \<leftarrow> addTrack (track_of_node n) s;
       addTrack_forEach as s'
     }"

text \<open>\<open>if (currentTrack) { this.setCurrentTrack(currentTrack.id); }\<close>\<close>

definition restore_current :: "addr option \<Rightarrow> MusicLinkedList \<Rightarrow> MusicLinkedList option" where
  "restore_current currentTrack s =
     (case currentTrack of
        None \<Rightarrow> Some s
      | Some c \<Rightarrow>
          do {
            n \<leftarrow> deref (heap s) c;
            (r, s') \<leftarrow> setCurrentTrack (id_n n) s;
            Some s'
          })"

definition shuffle :: "(nat \<Rightarrow> nat) \<Rightarrow> MusicLinkedList \<Rightarrow> MusicLinkedList option" where
  "shuffle rnd s =
     (if size_l s \<le> 1 then Some s
      else do {
        tracks \<leftarrow> getAllTracks s;
        let currentTrack = current s;
        let tracks' = fisherYates rnd (length tracks - 1) tracks;
        s1 \<leftarrow> addTrack_forEach tracks' (clear s);
        s2 \<leftarrow> restore_current currentTrack s1;
        Some (s2\<lparr>isShuffled := True\<rparr>)
      })"

definition restoreOrder :: "MusicLinkedList \<Rightarrow> MusicLinkedList option" where
  "restoreOrder s =
     (if \<not> isShuffled s \<or> length (originalOrder s) = 0 then Some s
      else do {
        let currentTrack = current s;
        s1 \<leftarrow> addTrack_forEach (originalOrder s) (clear s);
        s2 \<leftarrow> restore_current currentTrack s1;
        Some (s2\<lparr>isShuffled := False\<rparr>)
      })"

subsection \<open>removeTrack\<close>

definition removeTrack :: "string \<Rightarrow> MusicLinkedList \<Rightarrow> (bool \<times> MusicLinkedList) option" where
  "removeTrack trackId s =
     (case head s of
        None \<Rightarrow> Some (False, s)
      | Some hd_a \<Rightarrow>
          if size_l s = 0 then Some (False, s)
          else do {
            r \<leftarrow> find_loop (heap s) hd_a hd_a trackId;
            case r of
              None \<Rightarrow> Some (False, s)
            | Some nodeToRemove \<Rightarrow>
                if size_l s = 1 then Some (True, clear s)
                else do {
                  n \<leftarrow> deref (heap s) nodeToRemove;
                  prevNode \<leftarrow> prev n;
                  nextNode \<leftarrow> next_n n;
                  h1 \<leftarrow> assign_next (heap s) prevNode (Some nextNode);
                  h2 \<leftarrow> assign_prev h1 nextNode (Some prevNode);
                  let s1 = s\<lparr>heap := h2\<rparr>;
                  let s2 = (if Some nodeToRemove = head s1 then s1\<lparr>head := Some nextNode\<rparr> else s1);
                  let s3 = (if Some nodeToRemove = current s2 then s2\<lparr>current := Some nextNode\<rparr> else s2);
                  s4 \<leftarrow> updateOriginalOrder (s3\<lparr>size_l := size_l s3 - 1\<rparr>);
                  Some (True, s4)
                }
          })"

subsection \<open>Queries: getSize, isEmpty, getIsShuffled, search, durations\<close>

definition getSize :: "MusicLinkedList \<Rightarrow> nat" where
  "getSize s = size_l s"

definition isEmpty :: "MusicLinkedList \<Rightarrow> bool" where
  "isEmpty s = (size_l s = 0)"

definition getIsShuffled :: "MusicLinkedList \<Rightarrow> bool" where
  "getIsShuffled s = isShuffled s"

text \<open>\<open>String.prototype.toLowerCase\<close> on ASCII text (a \<open>char\<close> is a byte; only the
  letters \<open>A..Z\<close> are folded, so for text with other cased letters the source folds more
  than this does; nothing below depends on it) and \<open>String.prototype.includes\<close> (here
  \<open>includes_s\<close>).\<close>

definition toLowerCase_char :: "char \<Rightarrow> char" where
  "toLowerCase_char c =
     (if 65 \<le> (of_char c :: nat) \<and> (of_char c :: nat) \<le> 90
      then char_of ((of_char c :: nat) + 32) else c)"

definition toLowerCase :: "string \<Rightarrow> string" where
  "toLowerCase s = map toLowerCase_char s"

fun includes_s :: "string \<Rightarrow> string \<Rightarrow> bool" where
  "includes_s [] t = (t = [])"
| "includes_s (c # cs) t = (take (length t) (c # cs) = t \<or> includes_s cs t)"

text \<open>The queries read the fields of the nodes that \<open>getAllTracks()\<close> returns; those
  are allocated nodes (the loop has dereferenced each of them), read here as \<open>heap s ! a\<close>.\<close>

definition getTracksByGenre :: "string \<Rightarrow> MusicLinkedList \<Rightarrow> addr list option" where
  "getTracksByGenre g s =
     do {
       ts \<leftarrow> getAllTracks s;
       Some (filter (\<lambda>a. case genre (heap s ! a) of
                            None \<Rightarrow> False
                          | Some tg \<Rightarrow> toLowerCase tg = toLowerCase g) ts)
     }"

definition searchTracks :: "string \<Rightarrow> MusicLinkedList \<Rightarrow> addr list option" where
  "searchTracks query s =
     (let searchTerm = toLowerCase query
      in do {
        ts \<leftarrow> getAllTracks s;
        Some (filter (\<lambda>a. let track = heap s ! a
                          in includes_s (toLowerCase (title track)) searchTerm \<or>
                             includes_s (toLowerCase (artist track)) searchTerm \<or>
                             (case genre track of
                                None \<Rightarrow> False
                              | Some tg \<Rightarrow> includes_s (toLowerCase tg) searchTerm)) ts)
      })"

text \<open>\<open>reduce((total, track) => total + track.duration, 0)\<close>\<close>

definition getTotalDuration :: "MusicLinkedList \<Rightarrow> number option" where
  "getTotalDuration s =
     do {
       ts \<leftarrow> getAllTracks s;
       Some (foldl (\<lambda>total a. js_add total (duration (heap s ! a))) (Tracked 0) ts)
     }"

text \<open>\<open>Number.prototype.toString\<close> on an integer (\<open>decimal\<close> is its decimal numeral) and
  \<open>padStart\<close>.\<close>

fun toString_nat :: "nat \<Rightarrow> string" where
  "toString_nat n =
     (if n < 10 then [char_of (48 + n)]
      else toString_nat (n div 10) @ [char_of (48 + n mod 10)])"

declare toString_nat.simps [simp del]

definition decimal :: "int \<Rightarrow> string" where
  "decimal i = (if i < 0 then CHR ''-'' # toString_nat (nat (- i)) else toString_nat (nat i))"

definition toString :: "int \<Rightarrow> string tracked" where
  "toString i =
     (if \<bar>i\<bar> < 1000000000000000000000 then Tracked (decimal i) else Untracked)"

definition padStart :: "nat \<Rightarrow> char \<Rightarrow> string \<Rightarrow> string" where
  "padStart n c s = replicate (n - length s) c @ s"

text \<open>The body of \<open>getFormattedTotalDuration\<close> on the total. The template literals
  convert \<open>hours\<close> and \<open>minutes\<close> with the same conversion as \<open>toString\<close>.\<close>

definition formatTotal :: "number \<Rightarrow> string tracked" where
  "formatTotal totalSeconds =
     (case totalSeconds of
        Untracked \<Rightarrow> Untracked
      | Tracked t \<Rightarrow>
          if \<not> isSafeInteger t then Untracked
          else
            let hours = t div 3600;
                minutes = js_rem t 3600 div 60;
                seconds = js_rem t 60
            in if hours > 0
               then
                 tracked_bind (toString hours) (\<lambda>h.
                 tracked_bind (toString minutes) (\<lambda>m.
                 tracked_bind (toString seconds) (\<lambda>sec.
                   Tracked (h @ '':'' @ padStart 2 (CHR ''0'') m @ '':'' @
                            padStart 2 (CHR ''0'') sec))))
               else
                 tracked_bind (toString minutes) (\<lambda>m.
                 tracked_bind (toString seconds) (\<lambda>sec.
                   Tracked (m @ '':'' @ padStart 2 (CHR ''0'') sec))))"

definition getFormattedTotalDuration :: "MusicLinkedList \<Rightarrow> string tracked option" where
  "getFormattedTotalDuration s =
     do { totalSeconds \<leftarrow> getTotalDuration s; Some (formatTotal totalSeconds) }"

section \<open>Statements about the container\<close>

text \<open>
  Apart from the player's insertion loop, nothing from here on is in the source: these
  are the notions the statements and the proofs need.
\<close>

subsection \<open>What a caller observes\<close>

text \<open>
  \<open>allTracks\<close>: the track data of the nodes that \<open>getAllTracks()\<close> returns, in order.
  \<open>addTrack_all\<close>: the loop \<open>tracks.forEach(track => list.addTrack(track))\<close> with which
  the player component fills a container. \<open>times k f\<close>: calling the operation \<open>f\<close>
  \<open>k\<close> times in a row, dropping the returned values. \<open>follow f h k a\<close>: the node reached
  from \<open>a\<close> by following the link \<open>f\<close> (\<open>next_n\<close> or \<open>prev\<close>) \<open>k\<close> times in the store
  \<open>h\<close>. \<open>two_digits n\<close>: the two decimal digits of \<open>n < 100\<close>.
\<close>

definition allTracks :: "MusicLinkedList \<Rightarrow> track list option" where
  "allTracks s = map_option (map (\<lambda>a. track_of_node (heap s ! a))) (getAllTracks s)"

fun addTrack_all :: "track list \<Rightarrow> MusicLinkedList \<Rightarrow> MusicLinkedList option" where
  "addTrack_all [] s = Some s"
| "addTrack_all (t # ts) s = do { s' \<leftarrow> addTrack t s; addTrack_all ts s' }"

fun times :: "nat \<Rightarrow> ('s \<Rightarrow> ('a \<times> 's) option) \<Rightarrow> 's \<Rightarrow> 's option" where
  "times 0 f s = Some s"
| "times (Suc k) f s = do { (r, s') \<leftarrow> f s; times k f s' }"

fun follow :: "(TrackNode \<Rightarrow> addr option) \<Rightarrow> TrackNode list \<Rightarrow> nat \<Rightarrow> addr \<Rightarrow> addr option" where
  "follow f h 0 a = Some a"
| "follow f h (Suc k) a = do { n \<leftarrow> deref h a; b \<leftarrow> f n; follow f h k b }"

definition two_digits :: "nat \<Rightarrow> string" where
  "two_digits n = [char_of (48 + n div 10), char_of (48 + n mod 10)]"

text \<open>
  The shape of a formatted duration: \<open>split_on\<close> cuts a string at every colon;
  \<open>digits\<close> holds of a non-empty string of decimal digits; \<open>shape_M_SS\<close> of digits, a
  colon and two digits; \<open>shape_H_MM_SS\<close> of digits, a colon, two digits, a colon and two
  digits.
\<close>

definition is_digit :: "char \<Rightarrow> bool" where
  "is_digit c \<longleftrightarrow> 48 \<le> (of_char c :: nat) \<and> (of_char c :: nat) \<le> 57"

fun split_on :: "char \<Rightarrow> string \<Rightarrow> string list" where
  "split_on c [] = [[]]"
| "split_on c (x # xs) =
     (if x = c then [] # split_on c xs
      else (case split_on c xs of f # fs \<Rightarrow> (x # f) # fs | [] \<Rightarrow> [[x]]))"

definition digits :: "string \<Rightarrow> bool" where
  "digits s \<longleftrightarrow> s \<noteq> [] \<and> list_all is_digit s"

definition shape_M_SS :: "string \<Rightarrow> bool" where
  "shape_M_SS s =
     (case split_on (CHR '':'') s of
        [m, ss] \<Rightarrow> digits m \<and> digits ss \<and> length ss = 2
      | _ \<Rightarrow> False)"

definition shape_H_MM_SS :: "string \<Rightarrow> bool" where
  "shape_H_MM_SS s =
     (case split_on (CHR '':'') s of
        [h, mm, ss] \<Rightarrow> digits h \<and> digits mm \<and> length mm = 2 \<and> digits ss \<and> length ss = 2
      | _ \<Rightarrow> False)"

subsection \<open>The containers the public operations can produce\<close>

text \<open>
  The fields of \<open>MusicLinkedList\<close> are private: a container is in a state that some
  sequence of calls of its public methods has produced from \<open>new MusicLinkedList()\<close>.
  The read-only methods change nothing and need no rule.
\<close>

inductive reachable :: "MusicLinkedList \<Rightarrow> bool" where
  new: "reachable (new_list h)"
| addTrack: "reachable s \<Longrightarrow> addTrack t s = Some s' \<Longrightarrow> reachable s'"
| nextTrack: "reachable s \<Longrightarrow> nextTrack s = Some (res, s') \<Longrightarrow> reachable s'"
| prevTrack: "reachable s \<Longrightarrow> prevTrack s = Some (res, s') \<Longrightarrow> reachable s'"
| setCurrentTrack: "reachable s \<Longrightarrow> setCurrentTrack trackId s = Some (res, s') \<Longrightarrow> reachable s'"
| shuffle: "reachable s \<Longrightarrow> shuffle rnd s = Some s' \<Longrightarrow> reachable s'"
| restoreOrder: "reachable s \<Longrightarrow> restoreOrder s = Some s' \<Longrightarrow> reachable s'"
| clear: "reachable s \<Longrightarrow> reachable (clear s)"
| removeTrack: "reachable s \<Longrightarrow> removeTrack trackId s = Some (ok, s') \<Longrightarrow> reachable s'"

subsection \<open>Well-formed containers\<close>

text \<open>
  \<open>ring_at h r\<close> says that the nodes at the addresses \<open>r\<close> form a circular doubly
  linked ring in the store \<open>h\<close>, in that order: they are allocated, pairwise different,
  each one's \<open>next\<close> is its cyclic successor in \<open>r\<close>, and that successor's \<open>prev\<close> is
  the node itself. \<open>wf_list s r\<close> says that the container \<open>s\<close> is such a ring \<open>r\<close>
  starting at \<open>head\<close>, with \<open>size\<close> its length, \<open>current\<close> one of its nodes, and
  \<open>originalOrder\<close> an array of allocated nodes. \<open>heap_ext h h'\<close> says that the store
  \<open>h'\<close> has all the nodes of \<open>h\<close>, with the same track data.
\<close>

definition ring_at :: "TrackNode list \<Rightarrow> addr list \<Rightarrow> bool" where
  "ring_at h r \<longleftrightarrow>
     distinct r \<and> (\<forall>a\<in>set r. a < length h) \<and>
     (\<forall>i<length r. next_n (h ! (r ! i)) = Some (r ! (Suc i mod length r)) \<and>
                     prev (h ! (r ! (Suc i mod length r))) = Some (r ! i))"

definition wf_list :: "MusicLinkedList \<Rightarrow> addr list \<Rightarrow> bool" where
  "wf_list s r \<longleftrightarrow>
     ring_at (heap s) r \<and> size_l s = length r \<and>
     head s = (if r = [] then None else Some (r ! 0)) \<and>
     (r = [] \<longrightarrow> current s = None) \<and>
     (r \<noteq> [] \<longrightarrow> (\<exists>c\<in>set r. current s = Some c)) \<and>
     (\<forall>a\<in>set (originalOrder s). a < length (heap s))"

definition heap_ext :: "TrackNode list \<Rightarrow> TrackNode list \<Rightarrow> bool" where
  "heap_ext h h' \<longleftrightarrow>
     length h \<le> length h' \<and> (\<forall>a<length h. track_of_node (h' ! a) = track_of_node (h ! a))"

text \<open>
  The store and the state that \<open>addTrack\<close> produces from a well-formed container with
  the ring \<open>r\<close>; the store after \<open>removeTrack\<close> has unlinked a node between \<open>pn\<close> and
  \<open>nn\<close>, and the state it produces when it removes \<open>a\<close> from the ring \<open>xs @ a # ys\<close>
  (before and after \<open>updateOriginalOrder\<close>).
\<close>

definition addTrack_heap :: "TrackNode list \<Rightarrow> addr list \<Rightarrow> track \<Rightarrow> TrackNode list" where
  "addTrack_heap h r t =
     (let new = length h; h0 = h @ [TrackNode_new t] in
      if r = [] then h0[new := (TrackNode_new t)\<lparr>next_n := Some new, prev := Some new\<rparr>]
      else
        let h2 = h0[new := (TrackNode_new t)\<lparr>next_n := Some (r ! 0), prev := Some (last r)\<rparr>];
            h3 = list_update h2 (last r) ((h2 ! (last r))\<lparr>next_n := Some new\<rparr>)
        in list_update h3 (r ! 0) ((h3 ! (r ! 0))\<lparr>prev := Some new\<rparr>))"

definition addTrack_post :: "MusicLinkedList \<Rightarrow> addr list \<Rightarrow> track \<Rightarrow> MusicLinkedList" where
  "addTrack_post s r t =
     s\<lparr>heap := addTrack_heap (heap s) r t,
       head := Some ((r @ [length (heap s)]) ! 0),
       current := (if r = [] then Some (length (heap s)) else current s),
       size_l := Suc (length r),
       originalOrder := (if isShuffled s then originalOrder s else r @ [length (heap s)])\<rparr>"

definition splice_heap :: "TrackNode list \<Rightarrow> addr \<Rightarrow> addr \<Rightarrow> TrackNode list" where
  "splice_heap h pn nn =
     (let h1 = h[pn := (h ! pn)\<lparr>next_n := Some nn\<rparr>]
      in h1[nn := (h1 ! nn)\<lparr>prev := Some pn\<rparr>])"

definition removeTrack_pre :: "MusicLinkedList \<Rightarrow> addr list \<Rightarrow> addr \<Rightarrow> addr list \<Rightarrow> MusicLinkedList" where
  "removeTrack_pre s xs a ys =
     (let nn = (ys @ xs) ! 0;
          s1 = s\<lparr>heap := splice_heap (heap s) (last (ys @ xs)) nn\<rparr>;
          s2 = (if Some a = head s1 then s1\<lparr>head := Some nn\<rparr> else s1);
          s3 = (if Some a = current s2 then s2\<lparr>current := Some nn\<rparr> else s2)
      in s3\<lparr>size_l := size_l s3 - 1\<rparr>)"

definition removeTrack_post :: "MusicLinkedList \<Rightarrow> addr list \<Rightarrow> addr \<Rightarrow> addr list \<Rightarrow> MusicLinkedList" where
  "removeTrack_post s xs a ys =
     (let s4 = removeTrack_pre s xs a ys
      in if isShuffled s then s4 else s4\<lparr>originalOrder := xs @ ys\<rparr>)"

subsection \<open>Example containers\<close>

text \<open>
  \<open>demo_list\<close> is the container after inserting the tracks A, B, C into a new one,
  \<open>demo_pair\<close> the one after inserting A (233 seconds) and B (200 seconds).
\<close>

definition demo_track :: "string \<Rightarrow> int \<Rightarrow> track" where
  "demo_track i d =
     \<lparr>t_id = i, t_title = ''Song '' @ i, t_artist = ''Artist'', t_duration = Tracked d,
      t_audioUrl = i @ ''.mp3'', t_coverUrl = None, t_genre = Some ''Pop''\<rparr>"

definition demo_node :: "string \<Rightarrow> int \<Rightarrow> addr \<Rightarrow> addr \<Rightarrow> TrackNode" where
  "demo_node i d nx pv =
     \<lparr>id_n = i, title = ''Song '' @ i, artist = ''Artist'', duration = Tracked d,
      audioUrl = i @ ''.mp3'', coverUrl = None, genre = Some ''Pop'',
      next_n = Some nx, prev = Some pv\<rparr>"

definition demo_list :: MusicLinkedList where
  "demo_list =
     \<lparr>heap = [demo_node ''A'' 233 1 2, demo_node ''B'' 200 2 0, demo_node ''C'' 285 0 1],
      head = Some 0, current = Some 0, size_l = 3, isShuffled = False,
      originalOrder = [0, 1, 2]\<rparr>"

definition demo_pair :: MusicLinkedList where
  "demo_pair =
     \<lparr>heap = [demo_node ''A'' 233 1 1, demo_node ''B'' 200 0 0],
      head = Some 0, current = Some 0, size_l = 2, isShuffled = False,
      originalOrder = [0, 1]\<rparr>"

section \<open>The operations on well-formed containers\<close>

subsection \<open>Rings: links, rotation, traversal\<close>

lemma ring_at_nextD:
  "ring_at h r \<Longrightarrow> i < length r \<Longrightarrow> next_n (h ! (r ! i)) = Some (r ! (Suc i mod length r))"
  by (simp add: ring_at_def)

lemma ring_at_prevD:
  "ring_at h r \<Longrightarrow> i < length r \<Longrightarrow> prev (h ! (r ! (Suc i mod length r))) = Some (r ! i)"
  by (simp add: ring_at_def)

lemma ring_at_validD: "ring_at h r \<Longrightarrow> i < length r \<Longrightarrow> r ! i < length h"
  by (simp add: ring_at_def)

lemma ring_at_distinctD: "ring_at h r \<Longrightarrow> distinct r"
  by (simp add: ring_at_def)

lemma distinct_nth_Suc_neq_0: "distinct r \<Longrightarrow> Suc i < length r \<Longrightarrow> r ! Suc i \<noteq> r ! 0"
proof -
  assume d: "distinct r" and l: "Suc i < length r"
  from l have z: "0 < length r" by arith
  show ?thesis using nth_eq_iff_index_eq [OF d l z] by simp
qed

lemma ring_at_rotate1: "ring_at h r \<Longrightarrow> ring_at h (rotate1 r)"
proof -
  assume R: "ring_at h r"
  show ?thesis
    unfolding ring_at_def
  proof (intro conjI allI impI)
    show "distinct (rotate1 r)" using R by (simp add: ring_at_def)
    show "\<forall>a\<in>set (rotate1 r). a < length h" using R by (simp add: ring_at_def)
  next
    fix i assume "i < length (rotate1 r)"
    then have i: "i < length r" by simp
    then have j: "Suc i mod length r < length r" by (intro mod_less_divisor) arith
    have a: "rotate1 r ! i = r ! (Suc i mod length r)" using i by (simp add: nth_rotate1)
    have b: "rotate1 r ! (Suc i mod length (rotate1 r)) = r ! (Suc (Suc i mod length r) mod length r)"
      using j by (simp add: nth_rotate1)
    show "next_n (h ! (rotate1 r ! i)) = Some (rotate1 r ! (Suc i mod length (rotate1 r)))"
      unfolding a b using ring_at_nextD [OF R j] .
    show "prev (h ! (rotate1 r ! (Suc i mod length (rotate1 r)))) = Some (rotate1 r ! i)"
      unfolding a b using ring_at_prevD [OF R j] .
  qed
qed

lemma ring_at_rotate: "ring_at h r \<Longrightarrow> ring_at h (rotate k r)"
  by (induction k) (simp_all add: ring_at_rotate1)

lemma getAllTracks_loop_ring:
  assumes R: "ring_at h r"
  shows "i < length r \<Longrightarrow> getAllTracks_loop h (r ! 0) (r ! i) (take i r) = Some r"
proof (induction "length r - i" arbitrary: i)
  case 0
  then show ?case by simp
next
  case (Suc k)
  have v: "r ! i < length h" using R Suc.prems by (rule ring_at_validD)
  have nx: "next_n (h ! (r ! i)) = Some (r ! (Suc i mod length r))"
    using R Suc.prems by (rule ring_at_nextD)
  have tk: "take i r @ [r ! i] = take (Suc i) r"
    using Suc.prems by (simp add: take_Suc_conv_app_nth)
  show ?case
  proof (cases "Suc i < length r")
    case True
    have ne: "r ! Suc i \<noteq> r ! 0"
      using ring_at_distinctD [OF R] True by (rule distinct_nth_Suc_neq_0)
    have "getAllTracks_loop h (r ! 0) (r ! Suc i) (take (Suc i) r) = Some r"
      using Suc.hyps(1) [of "Suc i"] Suc.hyps(2) True by simp
    then show ?thesis
      using v nx ne True tk
      by (subst getAllTracks_loop.simps) (simp add: deref_def)
  next
    case False
    then have e: "Suc i = length r" using Suc.prems by simp
    then show ?thesis
      using v nx tk
      by (subst getAllTracks_loop.simps) (simp add: deref_def)
  qed
qed

lemma find_loop_ring:
  assumes R: "ring_at h r"
  shows "i < length r \<Longrightarrow>
    find_loop h (r ! 0) (r ! i) tid = Some (find (\<lambda>a. id_n (h ! a) = tid) (drop i r))"
proof (induction "length r - i" arbitrary: i)
  case 0
  then show ?case by simp
next
  case (Suc k)
  have v: "r ! i < length h" using R Suc.prems by (rule ring_at_validD)
  have nx: "next_n (h ! (r ! i)) = Some (r ! (Suc i mod length r))"
    using R Suc.prems by (rule ring_at_nextD)
  have dr: "drop i r = r ! i # drop (Suc i) r"
    using Suc.prems by (simp add: Cons_nth_drop_Suc)
  show ?case
  proof (cases "id_n (h ! (r ! i)) = tid")
    case True
    then show ?thesis using v dr
      by (subst find_loop.simps) (simp add: deref_def)
  next
    case nm: False
    show ?thesis
    proof (cases "Suc i < length r")
      case True
      have ne: "r ! Suc i \<noteq> r ! 0"
        using ring_at_distinctD [OF R] True by (rule distinct_nth_Suc_neq_0)
      have "find_loop h (r ! 0) (r ! Suc i) tid = Some (find (\<lambda>a. id_n (h ! a) = tid) (drop (Suc i) r))"
        using Suc.hyps(1) [of "Suc i"] Suc.hyps(2) True by simp
      then show ?thesis
        using v nx ne True dr nm
        by (subst find_loop.simps) (simp add: deref_def)
    next
      case False
      then have e: "Suc i = length r" using Suc.prems by simp
      then show ?thesis
        using v nx dr nm
        by (subst find_loop.simps) (simp add: deref_def)
    qed
  qed
qed

subsection \<open>addTrack on a well-formed container\<close>

lemma ring_at_Nil [simp]: "ring_at h []"
  by (simp add: ring_at_def)

lemma ring_at_snoc:
  assumes R: "ring_at h r" and ne: "r \<noteq> []"
    and len: "length h' = Suc (length h)"
    and nx: "\<And>b. b < length h' \<Longrightarrow> next_n (h' ! b) =
              (if b = last r then Some (length h) else if b = length h then Some (r ! 0)
               else next_n (h ! b))"
    and pv: "\<And>b. b < length h' \<Longrightarrow> prev (h' ! b) =
              (if b = r ! 0 then Some (length h) else if b = length h then Some (last r)
               else prev (h ! b))"
  shows "ring_at h' (r @ [length h])"
proof -
  let ?n = "length r"
  let ?r' = "r @ [length h]"
  have n0: "0 < ?n" using ne by simp
  have d: "distinct r" using R by (rule ring_at_distinctD)
  have valid: "\<And>i. i < ?n \<Longrightarrow> r ! i < length h" using R by (rule ring_at_validD)
  have vset: "\<forall>a\<in>set r. a < length h" using R by (simp add: ring_at_def)
  have lastr: "last r = r ! (?n - 1)" using ne by (simp add: last_conv_nth)
  have newnotin: "length h \<notin> set r" using vset by auto
  show ?thesis
    unfolding ring_at_def
  proof (intro conjI allI impI)
    show "distinct ?r'" using d newnotin by simp
    show "\<forall>a\<in>set ?r'. a < length h'" using vset len by auto
  next
    fix i assume "i < length ?r'"
    then have i: "i \<le> ?n" by simp
    have l': "length ?r' = Suc ?n" by simp
    consider (new) "i = ?n" | (tail) "Suc i = ?n" | (mid) "Suc i < ?n" using i by linarith
    then show "next_n (h' ! (?r' ! i)) = Some (?r' ! (Suc i mod length ?r'))"
    proof cases
      case new
      have "last r \<noteq> length h" using valid [of "?n - 1"] n0 lastr by simp
      then show ?thesis using new n0 len nx [of "length h"] by (simp add: nth_append)
    next
      case tail
      then have "i = ?n - 1" by simp
      then have e: "r ! i = last r" using lastr by simp
      show ?thesis using tail e valid [of i] len nx [of "last r"] by (simp add: nth_append)
    next
      case mid
      have a: "r ! i \<noteq> last r" using d mid lastr n0 by (simp add: nth_eq_iff_index_eq)
      have b: "r ! i \<noteq> length h" using valid [of i] mid by simp
      have c: "next_n (h ! (r ! i)) = Some (r ! Suc i)"
        using ring_at_nextD [OF R, of i] mid by simp
      show ?thesis using mid a b c valid [of i] len nx [of "r ! i"] by (simp add: nth_append)
    qed
    from \<open>i \<le> ?n\<close> consider (new) "i = ?n" | (tail) "Suc i = ?n" | (mid) "Suc i < ?n" by linarith
    then show "prev (h' ! (?r' ! (Suc i mod length ?r'))) = Some (?r' ! i)"
    proof cases
      case new
      then show ?thesis using n0 valid [of 0] len pv [of "r ! 0"] by (simp add: nth_append)
    next
      case tail
      then have "i = ?n - 1" by simp
      then have e: "r ! i = last r" using lastr by simp
      have "r ! 0 \<noteq> length h" using valid [of 0] n0 by simp
      then show ?thesis using tail e len pv [of "length h"] by (simp add: nth_append)
    next
      case mid
      have a: "r ! Suc i \<noteq> r ! 0" using d mid by (rule distinct_nth_Suc_neq_0)
      have b: "r ! Suc i \<noteq> length h" using valid [of "Suc i"] mid by simp
      have c: "prev (h ! (r ! Suc i)) = Some (r ! i)"
        using ring_at_prevD [OF R, of i] mid by simp
      show ?thesis using mid a b c valid [of "Suc i"] len pv [of "r ! Suc i"] by (simp add: nth_append)
    qed
  qed
qed

lemma ring_at_prev_head:
  assumes R: "ring_at h r" and ne: "r \<noteq> []"
  shows "prev (h ! (r ! 0)) = Some (last r)"
proof -
  have "prev (h ! (r ! (Suc (length r - 1) mod length r))) = Some (r ! (length r - 1))"
    using R ne by (intro ring_at_prevD) simp_all
  then show ?thesis using ne by (simp add: last_conv_nth)
qed

lemma getAllTracks_wf: "wf_list s r \<Longrightarrow> getAllTracks s = Some r"
  using getAllTracks_loop_ring [of "heap s" r 0]
  by (cases "r = []") (simp_all add: wf_list_def getAllTracks_def)

lemma track_of_node_upd [simp]:
  "track_of_node (n\<lparr>next_n := v\<rparr>) = track_of_node n"
  "track_of_node (n\<lparr>prev := v\<rparr>) = track_of_node n"
  by (simp_all add: track_of_node_def)

lemma track_of_node_new [simp]: "track_of_node (TrackNode_new t) = t"
  by (simp add: track_of_node_def TrackNode_new_def)

lemma updateOriginalOrder_wf:
  assumes W: "wf_list s r"
  shows "updateOriginalOrder s = Some (if isShuffled s then s else s\<lparr>originalOrder := r\<rparr>)"
    and "wf_list (if isShuffled s then s else s\<lparr>originalOrder := r\<rparr>) r"
proof -
  show "updateOriginalOrder s = Some (if isShuffled s then s else s\<lparr>originalOrder := r\<rparr>)"
    using getAllTracks_wf [OF W] by (simp add: updateOriginalOrder_def)
  show "wf_list (if isShuffled s then s else s\<lparr>originalOrder := r\<rparr>) r"
    using W by (auto simp: wf_list_def ring_at_def)
qed

lemma addTrack_eq:
  assumes W: "wf_list s r"
  shows "addTrack t s =
     updateOriginalOrder
       (if r = [] then
          s\<lparr>heap := addTrack_heap (heap s) r t, head := Some (length (heap s)),
            current := Some (length (heap s)), size_l := Suc (length r)\<rparr>
        else s\<lparr>heap := addTrack_heap (heap s) r t, size_l := Suc (length r)\<rparr>)"
proof (cases "r = []")
  case True
  then have "head s = None" "size_l s = 0" using W by (simp_all add: wf_list_def)
  then show ?thesis using True
    by (simp add: addTrack_def addTrack_heap_def Let_def assign_next_def assign_prev_def)
next
  case False
  have R: "ring_at (heap s) r" using W by (simp add: wf_list_def)
  have hd: "head s = Some (r ! 0)" and sz: "size_l s = length r"
    using W False by (simp_all add: wf_list_def)
  have v0: "r ! 0 < length (heap s)" using R False by (intro ring_at_validD) simp_all
  have vl: "last r < length (heap s)" using R False by (simp add: ring_at_def)
  have pv: "prev (heap s ! (r ! 0)) = Some (last r)" using R False by (rule ring_at_prev_head)
  show ?thesis using False hd sz v0 vl pv
    by (simp add: addTrack_def addTrack_heap_def Let_def assign_next_def assign_prev_def
        deref_def nth_append nth_list_update)
qed

lemma length_addTrack_heap [simp]: "length (addTrack_heap h r t) = Suc (length h)"
  by (simp add: addTrack_heap_def Let_def)

lemma addTrack_heap_track_old:
  "b < length h \<Longrightarrow> track_of_node (addTrack_heap h r t ! b) = track_of_node (h ! b)"
  by (simp add: addTrack_heap_def Let_def nth_list_update nth_append)

lemma addTrack_heap_track_new:
  "\<forall>a\<in>set r. a < length h \<Longrightarrow> track_of_node (addTrack_heap h r t ! length h) = t"
proof (cases "r = []")
  case True
  then show ?thesis by (simp add: addTrack_heap_def Let_def)
next
  case False
  assume v: "\<forall>a\<in>set r. a < length h"
  have "last r \<in> set r" "r ! 0 \<in> set r" using False by simp_all
  then have "last r < length h" "r ! 0 < length h" using v by blast+
  then show ?thesis using False
    by (simp add: addTrack_heap_def Let_def nth_list_update nth_append)
qed

lemma ring_at_addTrack_heap:
  assumes R: "ring_at h r"
  shows "ring_at (addTrack_heap h r t) (r @ [length h])"
proof (cases "r = []")
  case True
  then show ?thesis by (simp add: addTrack_heap_def Let_def ring_at_def)
next
  case False
  have v0: "r ! 0 < length h" using R False by (intro ring_at_validD) simp_all
  have vl: "last r < length h" using R False by (simp add: ring_at_def)
  show ?thesis
  proof (rule ring_at_snoc [OF R False])
    show "length (addTrack_heap h r t) = Suc (length h)" by simp
  next
    fix b assume "b < length (addTrack_heap h r t)"
    then show "next_n (addTrack_heap h r t ! b) =
         (if b = last r then Some (length h) else if b = length h then Some (r ! 0)
          else next_n (h ! b))"
      using False v0 vl by (auto simp: addTrack_heap_def Let_def nth_list_update nth_append)
  next
    fix b assume "b < length (addTrack_heap h r t)"
    then show "prev (addTrack_heap h r t ! b) =
         (if b = r ! 0 then Some (length h) else if b = length h then Some (last r)
          else prev (h ! b))"
      using False v0 vl by (auto simp: addTrack_heap_def Let_def nth_list_update nth_append)
  qed
qed

lemma addTrack_wf:
  assumes W: "wf_list s r"
  shows "addTrack t s = Some (addTrack_post s r t)"
    and "wf_list (addTrack_post s r t) (r @ [length (heap s)])"
proof -
  let ?new = "length (heap s)"
  let ?s1 = "if r = [] then
          s\<lparr>heap := addTrack_heap (heap s) r t, head := Some ?new,
            current := Some ?new, size_l := Suc (length r)\<rparr>
        else s\<lparr>heap := addTrack_heap (heap s) r t, size_l := Suc (length r)\<rparr>"
  have R: "ring_at (heap s) r" using W by (simp add: wf_list_def)
  have R': "ring_at (addTrack_heap (heap s) r t) (r @ [?new])"
    using R by (rule ring_at_addTrack_heap)
  have W1: "wf_list ?s1 (r @ [?new])"
    using W R' by (auto simp: wf_list_def nth_append less_Suc_eq)
  have e: "(if isShuffled ?s1 then ?s1 else ?s1\<lparr>originalOrder := r @ [?new]\<rparr>) = addTrack_post s r t"
    using W by (auto simp: addTrack_post_def wf_list_def nth_append)
  show "addTrack t s = Some (addTrack_post s r t)"
    unfolding addTrack_eq [OF W] updateOriginalOrder_wf(1) [OF W1] e ..
  show "wf_list (addTrack_post s r t) (r @ [?new])"
    using updateOriginalOrder_wf(2) [OF W1] unfolding e .
qed

subsection \<open>removeTrack on a well-formed container\<close>

lemma length_splice_heap [simp]: "length (splice_heap h pn nn) = length h"
  by (simp add: splice_heap_def Let_def)

lemma splice_heap_track:
  "pn < length h \<Longrightarrow> nn < length h \<Longrightarrow> b < length h \<Longrightarrow>
   track_of_node (splice_heap h pn nn ! b) = track_of_node (h ! b)"
  by (simp add: splice_heap_def Let_def nth_list_update)

lemma next_n_splice_heap:
  "pn < length h \<Longrightarrow> nn < length h \<Longrightarrow> b < length h \<Longrightarrow>
   next_n (splice_heap h pn nn ! b) = (if b = pn then Some nn else next_n (h ! b))"
  by (simp add: splice_heap_def Let_def nth_list_update)

lemma prev_splice_heap:
  "pn < length h \<Longrightarrow> nn < length h \<Longrightarrow> b < length h \<Longrightarrow>
   prev (splice_heap h pn nn ! b) = (if b = nn then Some pn else prev (h ! b))"
  by (simp add: splice_heap_def Let_def nth_list_update)

lemma ring_at_Cons_links:
  assumes R: "ring_at h (a # rest)" and ne: "rest \<noteq> []"
  shows "next_n (h ! a) = Some (rest ! 0)" and "prev (h ! a) = Some (last rest)"
proof -
  have "1 < length (a # rest)" using ne by (cases rest) simp_all
  then show "next_n (h ! a) = Some (rest ! 0)"
    using ring_at_nextD [OF R, of 0] by simp
  show "prev (h ! a) = Some (last rest)"
    using ring_at_prev_head [OF R] ne by simp
qed

lemma ring_at_remove_head:
  assumes R: "ring_at h (a # rest)" and ne: "rest \<noteq> []"
  shows "ring_at (splice_heap h (last rest) (rest ! 0)) rest"
proof -
  let ?n = "length rest"
  let ?h' = "splice_heap h (last rest) (rest ! 0)"
  have n0: "0 < ?n" using ne by simp
  have d: "distinct rest" using ring_at_distinctD [OF R] by simp
  have vset: "\<forall>b\<in>set rest. b < length h" using R by (simp add: ring_at_def)
  have vl: "last rest < length h" using vset ne by simp
  have v0: "rest ! 0 < length h" using vset n0 by simp
  have lastr: "last rest = rest ! (?n - 1)" using ne by (simp add: last_conv_nth)
  show ?thesis
    unfolding ring_at_def
  proof (intro conjI allI impI)
    show "distinct rest" by (rule d)
    show "\<forall>b\<in>set rest. b < length ?h'" using vset by simp
  next
    fix i assume i: "i < ?n"
    then consider (tail) "Suc i = ?n" | (mid) "Suc i < ?n" by linarith
    then show "next_n (?h' ! (rest ! i)) = Some (rest ! (Suc i mod ?n))"
    proof cases
      case tail
      then have "i = ?n - 1" by simp
      then have "rest ! i = last rest" using lastr by simp
      then show ?thesis using tail vl v0 by (simp add: next_n_splice_heap)
    next
      case mid
      have a: "rest ! i \<noteq> last rest" using d mid lastr n0 by (simp add: nth_eq_iff_index_eq)
      have "next_n (h ! ((a # rest) ! Suc i)) = Some ((a # rest) ! (Suc (Suc i) mod length (a # rest)))"
        using R by (rule ring_at_nextD) (use i in simp)
      then have "next_n (h ! (rest ! i)) = Some (rest ! Suc i)" using mid by simp
      then show ?thesis using mid a vl v0 vset i by (simp add: next_n_splice_heap)
    qed
    from i consider (tail) "Suc i = ?n" | (mid) "Suc i < ?n" by linarith
    then show "prev (?h' ! (rest ! (Suc i mod ?n))) = Some (rest ! i)"
    proof cases
      case tail
      then have "i = ?n - 1" by simp
      then have "rest ! i = last rest" using lastr by simp
      then show ?thesis using tail v0 vl by (simp add: prev_splice_heap)
    next
      case mid
      have a: "rest ! Suc i \<noteq> rest ! 0" using d mid by (rule distinct_nth_Suc_neq_0)
      have "prev (h ! ((a # rest) ! (Suc (Suc i) mod length (a # rest)))) = Some ((a # rest) ! Suc i)"
        using R by (rule ring_at_prevD) (use i in simp)
      then have "prev (h ! (rest ! Suc i)) = Some (rest ! i)" using mid by simp
      then show ?thesis using mid a v0 vl vset by (simp add: prev_splice_heap)
    qed
  qed
qed

lemma ring_at_remove:
  assumes R: "ring_at h (xs @ a # ys)" and ne: "ys @ xs \<noteq> []"
  shows "next_n (h ! a) = Some ((ys @ xs) ! 0)" and "prev (h ! a) = Some (last (ys @ xs))"
    and "ring_at (splice_heap h (last (ys @ xs)) ((ys @ xs) ! 0)) (xs @ ys)"
proof -
  have "ring_at h (rotate (length xs) (xs @ a # ys))" using R by (rule ring_at_rotate)
  then have R1: "ring_at h (a # ys @ xs)" by (simp add: rotate_append)
  show "next_n (h ! a) = Some ((ys @ xs) ! 0)" using ring_at_Cons_links(1) [OF R1 ne] .
  show "prev (h ! a) = Some (last (ys @ xs))" using ring_at_Cons_links(2) [OF R1 ne] .
  have "ring_at (splice_heap h (last (ys @ xs)) ((ys @ xs) ! 0)) (rotate (length ys) (ys @ xs))"
    using ring_at_remove_head [OF R1 ne] by (rule ring_at_rotate)
  then show "ring_at (splice_heap h (last (ys @ xs)) ((ys @ xs) ! 0)) (xs @ ys)"
    by (simp add: rotate_append)
qed

lemma find_loop_wf:
  assumes W: "wf_list s r" and ne: "r \<noteq> []"
  shows "find_loop (heap s) (r ! 0) (r ! 0) tid = Some (find (\<lambda>a. id_n (heap s ! a) = tid) r)"
  using find_loop_ring [of "heap s" r 0 tid] W ne by (simp add: wf_list_def)

lemma removeTrack_pre_wf:
  assumes W: "wf_list s (xs @ a # ys)" and ne: "ys @ xs \<noteq> []"
  shows "wf_list (removeTrack_pre s xs a ys) (xs @ ys)"
proof -
  let ?h' = "splice_heap (heap s) (last (ys @ xs)) ((ys @ xs) ! 0)"
  have R: "ring_at (heap s) (xs @ a # ys)" using W by (simp add: wf_list_def)
  have R': "ring_at ?h' (xs @ ys)" using R ne by (rule ring_at_remove(3))
  have d: "distinct (xs @ a # ys)" using R by (rule ring_at_distinctD)
  have hd: "head s = Some ((xs @ a # ys) ! 0)" using W by (simp add: wf_list_def)
  have sz: "size_l s = length (xs @ a # ys)" using W by (simp add: wf_list_def)
  obtain c where c: "c \<in> set (xs @ a # ys)" "current s = Some c"
    using W by (auto simp: wf_list_def)
  have oo: "\<forall>b\<in>set (originalOrder s). b < length (heap s)" using W by (simp add: wf_list_def)
  have nn: "(ys @ xs) ! 0 \<in> set (xs @ ys)" using ne by (cases ys; cases xs) simp_all
  have h1: "head (removeTrack_pre s xs a ys) = Some ((xs @ ys) ! 0)"
  proof (cases xs)
    case Nil then show ?thesis using hd by (simp add: removeTrack_pre_def Let_def)
  next
    case (Cons x xs') then show ?thesis using hd d by (auto simp: removeTrack_pre_def Let_def)
  qed
  have c1: "\<exists>c'\<in>set (xs @ ys). current (removeTrack_pre s xs a ys) = Some c'"
    using c nn by (cases "c = a") (auto simp: removeTrack_pre_def Let_def)
  have "heap (removeTrack_pre s xs a ys) = ?h'"
    "size_l (removeTrack_pre s xs a ys) = length (xs @ ys)"
    "originalOrder (removeTrack_pre s xs a ys) = originalOrder s"
    using sz by (simp_all add: removeTrack_pre_def Let_def)
  then show ?thesis
    unfolding wf_list_def using R' h1 c1 oo ne by auto
qed

lemma removeTrack_post_wf:
  assumes W: "wf_list s (xs @ a # ys)" and ne: "ys @ xs \<noteq> []"
  shows "wf_list (removeTrack_post s xs a ys) (xs @ ys)"
proof -
  have nsh: "isShuffled (removeTrack_pre s xs a ys) = isShuffled s"
    by (simp add: removeTrack_pre_def Let_def)
  show ?thesis
    using updateOriginalOrder_wf(2) [OF removeTrack_pre_wf [OF W ne]]
    by (simp add: removeTrack_post_def Let_def nsh)
qed

lemma removeTrack_absent:
  assumes W: "wf_list s r" and nf: "find (\<lambda>a. id_n (heap s ! a) = tid) r = None"
  shows "removeTrack tid s = Some (False, s)"
proof (cases "r = []")
  case True
  then show ?thesis using W by (simp add: removeTrack_def wf_list_def)
next
  case False
  then have "head s = Some (r ! 0)" "size_l s \<noteq> 0" using W by (simp_all add: wf_list_def)
  then show ?thesis using find_loop_wf [OF W False, of tid] nf
    by (simp add: removeTrack_def)
qed

lemma removeTrack_sole:
  assumes W: "wf_list s [a]" and f: "id_n (heap s ! a) = tid"
  shows "removeTrack tid s = Some (True, clear s)"
proof -
  have "head s = Some a" "size_l s = 1" using W by (simp_all add: wf_list_def)
  then show ?thesis using find_loop_wf [OF W, of tid] f
    by (simp add: removeTrack_def)
qed

lemma removeTrack_splice:
  assumes W: "wf_list s (xs @ a # ys)" and ne: "ys @ xs \<noteq> []"
    and f: "find (\<lambda>a. id_n (heap s ! a) = tid) (xs @ a # ys) = Some a"
  shows "removeTrack tid s = Some (True, removeTrack_post s xs a ys)"
proof -
  let ?r = "xs @ a # ys"
  have R: "ring_at (heap s) ?r" using W by (simp add: wf_list_def)
  have hd: "head s = Some (?r ! 0)" using W by (simp add: wf_list_def)
  have sz: "size_l s = length ?r" using W by (simp add: wf_list_def)
  have sz1: "size_l s \<noteq> 0" "size_l s \<noteq> 1" using sz ne by (cases xs; cases ys; simp)+
  have vset: "\<forall>b\<in>set ?r. b < length (heap s)" using R by (simp add: ring_at_def)
  have va: "a < length (heap s)" using vset by simp
  have "last (ys @ xs) \<in> set ?r" using ne last_in_set [of "ys @ xs"] by auto
  then have vp: "last (ys @ xs) < length (heap s)" using vset by blast
  have "(ys @ xs) ! 0 \<in> set ?r" using ne nth_mem [of 0 "ys @ xs"] by auto
  then have vn: "(ys @ xs) ! 0 < length (heap s)" using vset by blast
  have nx: "next_n (heap s ! a) = Some ((ys @ xs) ! 0)" using R ne by (rule ring_at_remove(1))
  have pv: "prev (heap s ! a) = Some (last (ys @ xs))" using R ne by (rule ring_at_remove(2))
  have fl: "find_loop (heap s) (?r ! 0) (?r ! 0) tid = Some (Some a)"
    using find_loop_wf [OF W, of tid] f by simp
  have upd: "updateOriginalOrder (removeTrack_pre s xs a ys) = Some (removeTrack_post s xs a ys)"
    using updateOriginalOrder_wf(1) [OF removeTrack_pre_wf [OF W ne]]
    by (simp add: removeTrack_post_def removeTrack_pre_def Let_def)
  have "removeTrack tid s =
      do { s4 \<leftarrow> updateOriginalOrder (removeTrack_pre s xs a ys); Some (True, s4) }"
    unfolding removeTrack_def hd
    using fl sz1 va vp vn nx pv
    by (simp add: deref_def assign_next_def assign_prev_def removeTrack_pre_def splice_heap_def Let_def)
  then show ?thesis by (simp add: upd)
qed

subsection \<open>clear, setCurrentTrack, nextTrack, prevTrack\<close>

lemma heap_ext_refl [simp]: "heap_ext h h"
  by (simp add: heap_ext_def)

lemma heap_ext_trans: "heap_ext h1 h2 \<Longrightarrow> heap_ext h2 h3 \<Longrightarrow> heap_ext h1 h3"
  by (auto simp: heap_ext_def)

lemma heap_ext_addTrack_heap: "heap_ext h (addTrack_heap h r t)"
  by (simp add: heap_ext_def addTrack_heap_track_old)

lemma wf_list_clear: "wf_list s r \<Longrightarrow> wf_list (clear s) []"
  by (simp add: wf_list_def clear_def)

lemma find_in_set: "find P xs = Some a \<Longrightarrow> a \<in> set xs \<and> P a"
  by (induction xs) (auto split: if_splits)

lemma setCurrentTrack_wf:
  assumes W: "wf_list s r"
  shows "setCurrentTrack tid s =
     Some (case find (\<lambda>a. id_n (heap s ! a) = tid) r of
             Some node \<Rightarrow> (Some node, s\<lparr>current := Some node\<rparr>)
           | None \<Rightarrow> (None, s))"
proof (cases "r = []")
  case True
  then show ?thesis using W by (simp add: setCurrentTrack_def wf_list_def)
next
  case False
  then have "head s = Some (r ! 0)" using W by (simp add: wf_list_def)
  then show ?thesis using find_loop_wf [OF W False, of tid]
    by (simp add: setCurrentTrack_def split: option.splits)
qed

lemma wf_list_current: "wf_list s r \<Longrightarrow> c \<in> set r \<Longrightarrow> wf_list (s\<lparr>current := Some c\<rparr>) r"
  by (auto simp: wf_list_def)

lemma setCurrentTrack_wf_post:
  assumes W: "wf_list s r" and e: "setCurrentTrack tid s = Some (res, s')"
  shows "wf_list s' r"
proof (cases "find (\<lambda>a. id_n (heap s ! a) = tid) r")
  case None
  then show ?thesis using W e by (simp add: setCurrentTrack_wf [OF W])
next
  case (Some a)
  then have "a \<in> set r" by (auto dest: find_in_set)
  then have "wf_list (s\<lparr>current := Some a\<rparr>) r" using W by (intro wf_list_current)
  moreover have "s' = s\<lparr>current := Some a\<rparr>"
    using e unfolding setCurrentTrack_wf [OF W] Some by auto
  ultimately show ?thesis by simp
qed

lemma nextTrack_ring:
  assumes W: "wf_list s r" and i: "i < length r" and c: "current s = Some (r ! i)"
  shows "nextTrack s = Some (Some (r ! (Suc i mod length r)), s\<lparr>current := Some (r ! (Suc i mod length r))\<rparr>)"
proof -
  have R: "ring_at (heap s) r" using W by (simp add: wf_list_def)
  show ?thesis using ring_at_nextD [OF R i] ring_at_validD [OF R i] c
    by (simp add: nextTrack_def deref_def)
qed

lemma prevTrack_ring:
  assumes W: "wf_list s r" and i: "i < length r" and c: "current s = Some (r ! (Suc i mod length r))"
  shows "prevTrack s = Some (Some (r ! i), s\<lparr>current := Some (r ! i)\<rparr>)"
proof -
  have R: "ring_at (heap s) r" using W by (simp add: wf_list_def)
  have "Suc i mod length r < length r" using i by (intro mod_less_divisor) arith
  then show ?thesis using ring_at_prevD [OF R i] ring_at_validD [OF R, of "Suc i mod length r"] c
    by (simp add: prevTrack_def deref_def)
qed

subsection \<open>shuffle and restoreOrder rebuild the list\<close>

lemma length_fisherYates [simp]: "length (fisherYates rnd k xs) = length xs"
  by (induction k arbitrary: xs) (simp_all add: swap_def Let_def)

lemma mset_fisherYates: "k < length xs \<Longrightarrow> mset (fisherYates rnd k xs) = mset xs"
proof (induction k arbitrary: xs)
  case 0
  then show ?case by simp
next
  case (Suc k)
  let ?j = "rnd (Suc k) mod (Suc k + 1)"
  have "?j < Suc k + 1" by (intro mod_less_divisor) simp
  then have j: "?j < length xs" using Suc.prems by linarith
  have "mset (swap xs (Suc k) ?j) = mset xs"
    unfolding swap_def using mset_swap [OF j Suc.prems] .
  moreover have "mset (fisherYates rnd k (swap xs (Suc k) ?j)) = mset (swap xs (Suc k) ?j)"
    using Suc.prems by (intro Suc.IH) (simp add: swap_def)
  ultimately show ?case by (simp add: Let_def)
qed

lemma set_fisherYates: "k < length xs \<Longrightarrow> set (fisherYates rnd k xs) = set xs"
  using mset_fisherYates [of k xs rnd] by (metis set_mset_mset)

lemma addTrack_post_fields [simp]:
  "heap (addTrack_post s r t) = addTrack_heap (heap s) r t"
  "isShuffled (addTrack_post s r t) = isShuffled s"
  "size_l (addTrack_post s r t) = Suc (length r)"
  "originalOrder (addTrack_post s r t) =
     (if isShuffled s then originalOrder s else r @ [length (heap s)])"
  "current (addTrack_post s r t) = (if r = [] then Some (length (heap s)) else current s)"
  by (simp_all add: addTrack_post_def)

lemma upt_snoc_shift: "[n..<n + Suc k] = n # [Suc n..<Suc n + k]"
  by (simp add: upt_conv_Cons)

lemma addTrack_forEach_wf:
  assumes "wf_list s r" and "\<forall>a\<in>set as. a < length (heap s)"
  shows "\<exists>s'. addTrack_forEach as s = Some s' \<and>
      wf_list s' (r @ [length (heap s)..<length (heap s) + length as]) \<and>
      heap_ext (heap s) (heap s') \<and>
      length (heap s') = length (heap s) + length as \<and>
      (\<forall>k<length as. track_of_node (heap s' ! (length (heap s) + k)) =
                        track_of_node (heap s ! (as ! k))) \<and>
      isShuffled s' = isShuffled s \<and>
      originalOrder s' =
        (if isShuffled s \<or> as = [] then originalOrder s
         else r @ [length (heap s)..<length (heap s) + length as])"
  using assms
proof (induction as arbitrary: s r)
  case Nil
  then show ?case by simp
next
  case (Cons a as)
  let ?n = "length (heap s)"
  let ?t = "track_of_node (heap s ! a)"
  let ?s1 = "addTrack_post s r ?t"
  have W: "wf_list s r" by (rule Cons.prems(1))
  have va: "a < ?n" using Cons.prems(2) by simp
  have R: "ring_at (heap s) r" using W by (simp add: wf_list_def)
  have vr: "\<forall>b\<in>set r. b < ?n" using R by (simp add: ring_at_def)
  have a1: "addTrack ?t s = Some ?s1" using W by (rule addTrack_wf(1))
  have W1: "wf_list ?s1 (r @ [?n])" using W by (rule addTrack_wf(2))
  have l1: "length (heap ?s1) = Suc ?n" by simp
  have v1: "\<forall>b\<in>set as. b < length (heap ?s1)" using Cons.prems(2) by auto
  obtain s' where s':
    "addTrack_forEach as ?s1 = Some s'"
    "wf_list s' ((r @ [?n]) @ [Suc ?n..<Suc ?n + length as])"
    "heap_ext (heap ?s1) (heap s')"
    "length (heap s') = Suc ?n + length as"
    "\<forall>k<length as. track_of_node (heap s' ! (Suc ?n + k)) = track_of_node (heap ?s1 ! (as ! k))"
    "isShuffled s' = isShuffled ?s1"
    "originalOrder s' =
        (if isShuffled ?s1 \<or> as = [] then originalOrder ?s1
         else (r @ [?n]) @ [Suc ?n..<Suc ?n + length as])"
    using Cons.IH [OF W1 v1] unfolding l1 by blast
  have e1: "addTrack_forEach (a # as) s = Some s'"
    using va a1 s'(1) by (simp add: deref_def)
  have lc: "length (a # as) = Suc (length as)" by simp
  have rg: "(r @ [?n]) @ [Suc ?n..<Suc ?n + length as] = r @ [?n..<?n + length (a # as)]"
    unfolding lc upt_snoc_shift by simp
  have he: "heap_ext (heap s) (heap s')"
    using heap_ext_addTrack_heap [of "heap s" r ?t] s'(3) by (auto intro: heap_ext_trans)
  have tr: "\<forall>k<length (a # as). track_of_node (heap s' ! (?n + k)) = track_of_node (heap s ! ((a # as) ! k))"
  proof (intro allI impI)
    fix k assume k: "k < length (a # as)"
    show "track_of_node (heap s' ! (?n + k)) = track_of_node (heap s ! ((a # as) ! k))"
    proof (cases k)
      case 0
      have "track_of_node (heap s' ! ?n) = track_of_node (heap ?s1 ! ?n)"
        using s'(3) by (simp add: heap_ext_def)
      also have "\<dots> = ?t" using vr by (simp add: addTrack_heap_track_new)
      finally show ?thesis using 0 by simp
    next
      case (Suc k')
      then have k': "k' < length as" using k by simp
      then have "as ! k' < ?n" using Cons.prems(2) by simp
      then have "track_of_node (heap ?s1 ! (as ! k')) = track_of_node (heap s ! (as ! k'))"
        by (simp add: addTrack_heap_track_old)
      then show ?thesis using s'(5) k' Suc by simp
    qed
  qed
  have oo: "originalOrder s' =
        (if isShuffled s \<or> a # as = [] then originalOrder s
         else r @ [?n..<?n + length (a # as)])"
    using s'(7) unfolding lc upt_snoc_shift by simp
  show ?case
    using e1 s'(2) he s'(4) tr s'(6) oo unfolding rg by simp
qed

lemma restore_current_wf:
  assumes W: "wf_list s r" and v: "\<forall>c. currentTrack = Some c \<longrightarrow> c < length (heap s)"
  shows "\<exists>s'. restore_current currentTrack s = Some s' \<and> wf_list s' r \<and>
           heap s' = heap s \<and> isShuffled s' = isShuffled s \<and> originalOrder s' = originalOrder s"
proof (cases currentTrack)
  case None
  then show ?thesis using W by (simp add: restore_current_def)
next
  case (Some c)
  let ?f = "find (\<lambda>a. id_n (heap s ! a) = id_n (heap s ! c)) r"
  have vc: "c < length (heap s)" using v Some by simp
  show ?thesis
  proof (cases ?f)
    case None
    then show ?thesis using W Some vc
      by (simp add: restore_current_def deref_def setCurrentTrack_wf [OF W])
  next
    case f: (Some a)
    then have "a \<in> set r" by (auto dest: find_in_set)
    then have "wf_list (s\<lparr>current := Some a\<rparr>) r" using W by (intro wf_list_current)
    then show ?thesis using Some vc f
      by (simp add: restore_current_def deref_def setCurrentTrack_wf [OF W])
  qed
qed

lemma wf_list_isShuffled: "wf_list s r \<Longrightarrow> wf_list (s\<lparr>isShuffled := b\<rparr>) r"
  by (simp add: wf_list_def)

lemma wf_list_current_valid:
  assumes W: "wf_list s r" and he: "length (heap s) \<le> n"
  shows "\<forall>c. current s = Some c \<longrightarrow> c < n"
proof (intro allI impI)
  fix c assume c: "current s = Some c"
  have "r \<noteq> []" using W c by (auto simp: wf_list_def)
  then have "c \<in> set r" using W c by (auto simp: wf_list_def)
  then have "c < length (heap s)" using W by (auto simp: wf_list_def ring_at_def)
  then show "c < n" using he by simp
qed

lemma rebuild_wf:
  assumes W: "wf_list s r" and v: "\<forall>a\<in>set as. a < length (heap s)"
  shows "\<exists>s'. (do { s1 \<leftarrow> addTrack_forEach as (clear s);
                      s2 \<leftarrow> restore_current (current s) s1;
                      Some (s2\<lparr>isShuffled := b\<rparr>) }) = Some s' \<and>
      wf_list s' [length (heap s)..<length (heap s) + length as] \<and>
      heap_ext (heap s) (heap s') \<and>
      (\<forall>k<length as. track_of_node (heap s' ! (length (heap s) + k)) =
                        track_of_node (heap s ! (as ! k))) \<and>
      isShuffled s' = b \<and>
      originalOrder s' =
        (if isShuffled s \<or> as = [] then originalOrder s
         else [length (heap s)..<length (heap s) + length as])"
proof -
  let ?n = "length (heap s)"
  have Wc: "wf_list (clear s) []" using W by (rule wf_list_clear)
  have hc: "heap (clear s) = heap s" "isShuffled (clear s) = isShuffled s"
    "originalOrder (clear s) = originalOrder s" by (simp_all add: clear_def)
  have vc: "\<forall>a\<in>set as. a < length (heap (clear s))" using v by (simp add: hc)
  obtain s1 where s1:
    "addTrack_forEach as (clear s) = Some s1"
    "wf_list s1 [?n..<?n + length as]"
    "heap_ext (heap s) (heap s1)"
    "length (heap s1) = ?n + length as"
    "\<forall>k<length as. track_of_node (heap s1 ! (?n + k)) = track_of_node (heap s ! (as ! k))"
    "isShuffled s1 = isShuffled s"
    "originalOrder s1 = (if isShuffled s \<or> as = [] then originalOrder s else [?n..<?n + length as])"
    using addTrack_forEach_wf [OF Wc vc] unfolding hc by auto
  have "length (heap s) \<le> length (heap s1)" using s1(4) by simp
  then have cv: "\<forall>c. current s = Some c \<longrightarrow> c < length (heap s1)"
    using W by (rule wf_list_current_valid [rotated])
  obtain s2 where s2:
    "restore_current (current s) s1 = Some s2" "wf_list s2 [?n..<?n + length as]"
    "heap s2 = heap s1" "isShuffled s2 = isShuffled s1" "originalOrder s2 = originalOrder s1"
    using restore_current_wf [OF s1(2) cv] by blast
  have "wf_list (s2\<lparr>isShuffled := b\<rparr>) [?n..<?n + length as]"
    using s2(2) by (rule wf_list_isShuffled)
  then show ?thesis using s1 s2 by simp
qed

lemma shuffle_wf:
  assumes W: "wf_list s r"
  shows "\<exists>s'. shuffle rnd s = Some s' \<and>
     (if length r \<le> 1 then s' = s
      else wf_list s' [length (heap s)..<length (heap s) + length r] \<and>
           heap_ext (heap s) (heap s') \<and>
           (\<forall>k<length r. track_of_node (heap s' ! (length (heap s) + k)) =
                           track_of_node (heap s ! (fisherYates rnd (length r - 1) r ! k))) \<and>
           isShuffled s' \<and>
           originalOrder s' =
             (if isShuffled s then originalOrder s
              else [length (heap s)..<length (heap s) + length r]))"
proof (cases "length r \<le> 1")
  case True
  then show ?thesis using W by (simp add: shuffle_def wf_list_def)
next
  case False
  let ?as = "fisherYates rnd (length r - 1) r"
  have sz: "\<not> size_l s \<le> 1" using W False by (simp add: wf_list_def)
  have ga: "getAllTracks s = Some r" using W by (rule getAllTracks_wf)
  have "set ?as = set r" using False by (intro set_fisherYates) simp
  then have v: "\<forall>a\<in>set ?as. a < length (heap s)" using W by (simp add: wf_list_def ring_at_def)
  have ne: "?as \<noteq> []" using False by (metis length_fisherYates list.size(3) zero_le)
  have e: "shuffle rnd s =
      do { s1 \<leftarrow> addTrack_forEach ?as (clear s);
           s2 \<leftarrow> restore_current (current s) s1;
           Some (s2\<lparr>isShuffled := True\<rparr>) }"
    using sz ga by (simp add: shuffle_def Let_def)
  show ?thesis
    using rebuild_wf [OF W v, of True] False ne
    unfolding e length_fisherYates by auto
qed

lemma restoreOrder_wf:
  assumes W: "wf_list s r"
  shows "\<exists>s'. restoreOrder s = Some s' \<and>
     (if \<not> isShuffled s \<or> originalOrder s = [] then s' = s
      else wf_list s' [length (heap s)..<length (heap s) + length (originalOrder s)] \<and>
           heap_ext (heap s) (heap s') \<and>
           (\<forall>k<length (originalOrder s). track_of_node (heap s' ! (length (heap s) + k)) =
                           track_of_node (heap s ! (originalOrder s ! k))) \<and>
           \<not> isShuffled s' \<and> originalOrder s' = originalOrder s)"
proof (cases "\<not> isShuffled s \<or> originalOrder s = []")
  case True
  then show ?thesis by (auto simp: restoreOrder_def)
next
  case False
  have v: "\<forall>a\<in>set (originalOrder s). a < length (heap s)" using W by (simp add: wf_list_def)
  have e: "restoreOrder s =
      do { s1 \<leftarrow> addTrack_forEach (originalOrder s) (clear s);
           s2 \<leftarrow> restore_current (current s) s1;
           Some (s2\<lparr>isShuffled := False\<rparr>) }"
    using False by (simp add: restoreOrder_def Let_def)
  show ?thesis
    using rebuild_wf [OF W v, of False] False
    unfolding e by auto
qed

subsection \<open>Every reachable container is well formed\<close>

lemma nextTrack_wf:
  assumes W: "wf_list s r"
  shows "\<exists>res s'. nextTrack s = Some (res, s') \<and> wf_list s' r"
proof (cases "r = []")
  case True
  then show ?thesis using W by (auto simp: nextTrack_def wf_list_def)
next
  case False
  then obtain c where "c \<in> set r" "current s = Some c" using W by (auto simp: wf_list_def)
  then obtain i where i: "i < length r" "current s = Some (r ! i)" by (auto simp: in_set_conv_nth)
  have "Suc i mod length r < length r" using i by (intro mod_less_divisor) arith
  then have "wf_list (s\<lparr>current := Some (r ! (Suc i mod length r))\<rparr>) r"
    by (intro wf_list_current [OF W] nth_mem)
  then show ?thesis using nextTrack_ring [OF W i] by simp
qed

lemma ring_index_pred:
  assumes i: "i < n"
  shows "\<exists>j<n. Suc j mod n = (i::nat)"
proof (cases i)
  case 0
  then have "Suc (n - 1) mod n = i" using i by simp
  then show ?thesis using i by (intro exI [of _ "n - 1"]) simp
next
  case (Suc j)
  then show ?thesis using i by (intro exI [of _ j]) simp
qed

lemma prevTrack_wf:
  assumes W: "wf_list s r"
  shows "\<exists>res s'. prevTrack s = Some (res, s') \<and> wf_list s' r"
proof (cases "r = []")
  case True
  then show ?thesis using W by (auto simp: prevTrack_def wf_list_def)
next
  case False
  then obtain c where "c \<in> set r" "current s = Some c" using W by (auto simp: wf_list_def)
  then obtain i where i: "i < length r" "current s = Some (r ! i)" by (auto simp: in_set_conv_nth)
  obtain j where j: "j < length r" "Suc j mod length r = i" using ring_index_pred [OF i(1)] by blast
  have "wf_list (s\<lparr>current := Some (r ! j)\<rparr>) r"
    by (intro wf_list_current [OF W] nth_mem j(1))
  then show ?thesis using prevTrack_ring [OF W j(1)] i j by simp
qed

lemma find_Some_split:
  "find P r = Some a \<Longrightarrow> \<exists>xs ys. r = xs @ a # ys \<and> P a \<and> (\<forall>x\<in>set xs. \<not> P x)"
proof (induction r)
  case Nil
  then show ?case by simp
next
  case (Cons b r)
  show ?case
  proof (cases "P b")
    case True
    then have "b = a" using Cons.prems by simp
    then show ?thesis using True by (intro exI [of _ "[]"] exI [of _ r]) simp
  next
    case False
    then have "find P r = Some a" using Cons.prems by simp
    then obtain xs ys where "r = xs @ a # ys" "P a" "\<forall>x\<in>set xs. \<not> P x"
      using Cons.IH by blast
    then show ?thesis using False by (intro exI [of _ "b # xs"] exI [of _ ys]) simp
  qed
qed

lemma removeTrack_cases:
  assumes W: "wf_list s r"
  obtains
    (absent) "find (\<lambda>a. id_n (heap s ! a) = tid) r = None" "removeTrack tid s = Some (False, s)"
  | (sole) a where "r = [a]" "id_n (heap s ! a) = tid" "removeTrack tid s = Some (True, clear s)"
  | (splice) xs a ys where "r = xs @ a # ys" "xs @ ys \<noteq> []"
      "\<forall>x\<in>set xs. id_n (heap s ! x) \<noteq> tid" "id_n (heap s ! a) = tid"
      "removeTrack tid s = Some (True, removeTrack_post s xs a ys)"
      "wf_list (removeTrack_post s xs a ys) (xs @ ys)"
proof (cases "find (\<lambda>a. id_n (heap s ! a) = tid) r")
  case None
  then show ?thesis using removeTrack_absent [OF W] absent by blast
next
  case (Some a)
  then obtain xs ys where sp: "r = xs @ a # ys" "id_n (heap s ! a) = tid"
    "\<forall>x\<in>set xs. id_n (heap s ! x) \<noteq> tid"
    using find_Some_split [of "\<lambda>a. id_n (heap s ! a) = tid" r a] by blast
  show ?thesis
  proof (cases "xs @ ys = []")
    case True
    then have r: "r = [a]" using sp(1) by simp
    then show ?thesis using removeTrack_sole [of s a tid] W sp(2) sole by blast
  next
    case False
    then have ne: "ys @ xs \<noteq> []" by auto
    have W': "wf_list s (xs @ a # ys)" using W sp(1) by simp
    have f: "find (\<lambda>a. id_n (heap s ! a) = tid) (xs @ a # ys) = Some a"
      using Some sp(1) by simp
    show ?thesis
      using splice [OF sp(1) False sp(3) sp(2) removeTrack_splice [OF W' ne f]
          removeTrack_post_wf [OF W' ne]] .
  qed
qed

lemma wf_list_new: "wf_list (new_list h) []"
  by (simp add: wf_list_def new_list_def)

lemma reachable_wf: "reachable s \<Longrightarrow> \<exists>r. wf_list s r"
proof (induction rule: reachable.induct)
  case (new h)
  show ?case using wf_list_new by blast
next
  case (addTrack s t s')
  then obtain r where W: "wf_list s r" by blast
  show ?case using addTrack_wf [OF W, of t] addTrack.hyps(2) by auto
next
  case (nextTrack s res s')
  then obtain r where W: "wf_list s r" by blast
  show ?case using nextTrack_wf [OF W] nextTrack.hyps(2) by auto
next
  case (prevTrack s res s')
  then obtain r where W: "wf_list s r" by blast
  show ?case using prevTrack_wf [OF W] prevTrack.hyps(2) by auto
next
  case (setCurrentTrack s trackId res s')
  then obtain r where W: "wf_list s r" by blast
  show ?case using setCurrentTrack_wf_post [OF W setCurrentTrack.hyps(2)] by blast
next
  case (shuffle s rnd s')
  then obtain r where W: "wf_list s r" by blast
  show ?case using shuffle_wf [OF W, of rnd] shuffle.hyps(2) W
    by (cases "length r \<le> 1") auto
next
  case (restoreOrder s s')
  then obtain r where W: "wf_list s r" by blast
  show ?case using restoreOrder_wf [OF W] restoreOrder.hyps(2) W
    by (cases "\<not> isShuffled s \<or> originalOrder s = []") auto
next
  case (clear s)
  then show ?case using wf_list_clear by blast
next
  case (removeTrack s trackId ok s')
  then obtain r where W: "wf_list s r" by blast
  show ?case
  proof (rule removeTrack_cases [OF W, of trackId])
    assume "removeTrack trackId s = Some (False, s)"
    then show ?thesis using removeTrack.hyps(2) W by auto
  next
    fix a assume "removeTrack trackId s = Some (True, clear s)"
    then show ?thesis using removeTrack.hyps(2) wf_list_clear [OF W] by auto
  next
    fix xs a ys
    assume "removeTrack trackId s = Some (True, removeTrack_post s xs a ys)"
      "wf_list (removeTrack_post s xs a ys) (xs @ ys)"
    then show ?thesis using removeTrack.hyps(2) by auto
  qed
qed

subsection \<open>Insertion, repeated navigation, following links\<close>

lemma includes_s_Nil [simp]: "includes_s s []"
  by (cases s) simp_all

lemma addTrack_all_wf:
  assumes "wf_list s r"
  shows "\<exists>s'. addTrack_all ts s = Some s' \<and>
      wf_list s' (r @ [length (heap s)..<length (heap s) + length ts]) \<and>
      heap_ext (heap s) (heap s') \<and>
      (\<forall>k<length ts. track_of_node (heap s' ! (length (heap s) + k)) = ts ! k)"
  using assms
proof (induction ts arbitrary: s r)
  case Nil
  then show ?case by simp
next
  case (Cons t ts)
  let ?n = "length (heap s)"
  let ?s1 = "addTrack_post s r t"
  have W: "wf_list s r" by (rule Cons.prems)
  have vr: "\<forall>b\<in>set r. b < ?n" using W by (simp add: wf_list_def ring_at_def)
  have a1: "addTrack t s = Some ?s1" using W by (rule addTrack_wf(1))
  have W1: "wf_list ?s1 (r @ [?n])" using W by (rule addTrack_wf(2))
  have l1: "length (heap ?s1) = Suc ?n" by simp
  obtain s' where s':
    "addTrack_all ts ?s1 = Some s'"
    "wf_list s' ((r @ [?n]) @ [Suc ?n..<Suc ?n + length ts])"
    "heap_ext (heap ?s1) (heap s')"
    "\<forall>k<length ts. track_of_node (heap s' ! (Suc ?n + k)) = ts ! k"
    using Cons.IH [OF W1] unfolding l1 by blast
  have e1: "addTrack_all (t # ts) s = Some s'" using a1 s'(1) by simp
  have lc: "length (t # ts) = Suc (length ts)" by simp
  have rg: "(r @ [?n]) @ [Suc ?n..<Suc ?n + length ts] = r @ [?n..<?n + length (t # ts)]"
    unfolding lc upt_snoc_shift by simp
  have he: "heap_ext (heap s) (heap s')"
    using heap_ext_addTrack_heap [of "heap s" r t] s'(3) by (auto intro: heap_ext_trans)
  have tr: "\<forall>k<length (t # ts). track_of_node (heap s' ! (?n + k)) = (t # ts) ! k"
  proof (intro allI impI)
    fix k assume k: "k < length (t # ts)"
    show "track_of_node (heap s' ! (?n + k)) = (t # ts) ! k"
    proof (cases k)
      case 0
      have "track_of_node (heap s' ! ?n) = track_of_node (heap ?s1 ! ?n)"
        using s'(3) by (simp add: heap_ext_def)
      also have "\<dots> = t" using vr by (simp add: addTrack_heap_track_new)
      finally show ?thesis using 0 by simp
    next
      case (Suc k')
      then show ?thesis using s'(4) k by simp
    qed
  qed
  show ?case using e1 s'(2) he tr unfolding rg by simp
qed

lemma allTracks_wf: "wf_list s r \<Longrightarrow> allTracks s = Some (map (\<lambda>a. track_of_node (heap s ! a)) r)"
  by (simp add: allTracks_def getAllTracks_wf)

lemma map_upt_nth_eq:
  assumes "\<forall>k<length ts. f (n + k) = ts ! k"
  shows "map f [n..<n + length ts] = ts"
  using assms by (intro nth_equalityI) simp_all

lemma record_current_same: "current s = c \<Longrightarrow> s\<lparr>current := c\<rparr> = s"
  by auto

lemma times_nextTrack_ring:
  assumes W: "wf_list s r"
  shows "i < length r \<Longrightarrow> current s = Some (r ! i) \<Longrightarrow>
    times k nextTrack s = Some (s\<lparr>current := Some (r ! ((i + k) mod length r))\<rparr>)"
  using W
proof (induction k arbitrary: s i)
  case 0
  then show ?case by (simp add: record_current_same)
next
  case (Suc k)
  let ?j = "Suc i mod length r"
  let ?s1 = "s\<lparr>current := Some (r ! ?j)\<rparr>"
  have j: "?j < length r" using Suc.prems(1) by (intro mod_less_divisor) arith
  have W1: "wf_list ?s1 r" by (intro wf_list_current [OF Suc.prems(3)] nth_mem j)
  have "times k nextTrack ?s1 = Some (?s1\<lparr>current := Some (r ! ((?j + k) mod length r))\<rparr>)"
    using j W1 by (intro Suc.IH) simp_all
  moreover have "(?j + k) mod length r = (i + Suc k) mod length r"
    by (metis add_Suc add_Suc_right mod_add_left_eq)
  ultimately show ?case
    using nextTrack_ring [OF Suc.prems(3) Suc.prems(1) Suc.prems(2)] by simp
qed

lemma times_prevTrack_ring:
  assumes W: "wf_list s r"
  shows "i < length r \<Longrightarrow> current s = Some (r ! ((i + k) mod length r)) \<Longrightarrow>
    times k prevTrack s = Some (s\<lparr>current := Some (r ! i)\<rparr>)"
  using W
proof (induction k arbitrary: s)
  case 0
  then show ?case by (simp add: record_current_same)
next
  case (Suc k)
  let ?j = "(i + k) mod length r"
  let ?s1 = "s\<lparr>current := Some (r ! ?j)\<rparr>"
  have j: "?j < length r" using Suc.prems(1) by (intro mod_less_divisor) arith
  have e: "Suc ?j mod length r = (i + Suc k) mod length r"
    by (metis add_Suc_right mod_Suc_eq)
  have W1: "wf_list ?s1 r" by (intro wf_list_current [OF Suc.prems(3)] nth_mem j)
  have p: "prevTrack s = Some (Some (r ! ?j), ?s1)"
    using Suc.prems(2) by (intro prevTrack_ring [OF Suc.prems(3) j]) (simp add: e)
  have "times k prevTrack ?s1 = Some (?s1\<lparr>current := Some (r ! i)\<rparr>)"
    using Suc.prems(1) W1 by (intro Suc.IH) simp_all
  then show ?case using p by simp
qed

lemma follow_next_ring:
  assumes R: "ring_at h r"
  shows "i < length r \<Longrightarrow> follow next_n h k (r ! i) = Some (r ! ((i + k) mod length r))"
proof (induction k arbitrary: i)
  case 0
  then show ?case by simp
next
  case (Suc k)
  let ?j = "Suc i mod length r"
  have j: "?j < length r" using Suc.prems by (intro mod_less_divisor) arith
  have "(?j + k) mod length r = (i + Suc k) mod length r"
    by (metis add_Suc add_Suc_right mod_add_left_eq)
  then show ?case
    using Suc.IH [OF j] ring_at_nextD [OF R Suc.prems] ring_at_validD [OF R Suc.prems]
    by (simp add: deref_def)
qed

lemma follow_prev_ring:
  assumes R: "ring_at h r"
  shows "i < length r \<Longrightarrow> follow prev h k (r ! ((i + k) mod length r)) = Some (r ! i)"
proof (induction k)
  case 0
  then show ?case by simp
next
  case (Suc k)
  let ?j = "(i + k) mod length r"
  have j: "?j < length r" using Suc.prems by (intro mod_less_divisor) arith
  have e: "Suc ?j mod length r = (i + Suc k) mod length r"
    by (metis add_Suc_right mod_Suc_eq)
  have j': "(i + Suc k) mod length r < length r" using Suc.prems by (intro mod_less_divisor) arith
  show ?case
    using Suc.IH [OF Suc.prems] ring_at_prevD [OF R j] ring_at_validD [OF R j'] e
    by (simp add: deref_def)
qed

subsection \<open>The example containers\<close>

lemma reachable_addTrack_all:
  "reachable s \<Longrightarrow> addTrack_all ts s = Some s' \<Longrightarrow> reachable s'"
proof (induction ts arbitrary: s)
  case Nil
  then show ?case by simp
next
  case (Cons t ts)
  then obtain s1 where "addTrack t s = Some s1" "addTrack_all ts s1 = Some s'"
    by (auto split: bind_splits)
  then show ?case using Cons.IH [of s1] Cons.prems(1) reachable.addTrack by blast
qed

lemma demo_list_built:
  "addTrack_all [demo_track ''A'' 233, demo_track ''B'' 200, demo_track ''C'' 285] (new_list [])
     = Some demo_list"
  by code_simp

lemma demo_reachable: "reachable demo_list"
  using reachable_addTrack_all [OF reachable.new demo_list_built] .

lemma demo_getAllTracks: "getAllTracks demo_list = Some [0, 1, 2]"
  by code_simp

lemma t_id_track_of_node [simp]: "t_id (track_of_node n) = id_n n"
  by (simp add: track_of_node_def)

lemma removeTrack_post_fields:
  assumes W: "wf_list s (xs @ a # ys)" and ne: "ys @ xs \<noteq> []"
  shows "head (removeTrack_post s xs a ys) = (if head s = Some a then next_n (heap s ! a) else head s)"
    and "current (removeTrack_post s xs a ys) = (if current s = Some a then next_n (heap s ! a) else current s)"
    and "size_l (removeTrack_post s xs a ys) + 1 = size_l s"
    and "\<forall>b\<in>set (xs @ ys). track_of_node (heap (removeTrack_post s xs a ys) ! b) = track_of_node (heap s ! b)"
proof -
  have R: "ring_at (heap s) (xs @ a # ys)" using W by (simp add: wf_list_def)
  have sz: "size_l s = length (xs @ a # ys)" using W by (simp add: wf_list_def)
  have nx: "next_n (heap s ! a) = Some ((ys @ xs) ! 0)" using R ne by (rule ring_at_remove(1))
  have vset: "\<forall>b\<in>set (xs @ a # ys). b < length (heap s)" using R by (simp add: ring_at_def)
  have "last (ys @ xs) \<in> set (xs @ a # ys)" using ne last_in_set [of "ys @ xs"] by auto
  then have vp: "last (ys @ xs) < length (heap s)" using vset by blast
  have "(ys @ xs) ! 0 \<in> set (xs @ a # ys)" using ne nth_mem [of 0 "ys @ xs"] by auto
  then have vn: "(ys @ xs) ! 0 < length (heap s)" using vset by blast
  show "head (removeTrack_post s xs a ys) = (if head s = Some a then next_n (heap s ! a) else head s)"
    using nx by (auto simp: removeTrack_post_def removeTrack_pre_def Let_def)
  show "current (removeTrack_post s xs a ys) = (if current s = Some a then next_n (heap s ! a) else current s)"
    using nx by (auto simp: removeTrack_post_def removeTrack_pre_def Let_def)
  show "size_l (removeTrack_post s xs a ys) + 1 = size_l s"
    using sz by (simp add: removeTrack_post_def removeTrack_pre_def Let_def)
  have "heap (removeTrack_post s xs a ys) = splice_heap (heap s) (last (ys @ xs)) ((ys @ xs) ! 0)"
    by (simp add: removeTrack_post_def removeTrack_pre_def Let_def)
  then show "\<forall>b\<in>set (xs @ ys). track_of_node (heap (removeTrack_post s xs a ys) ! b) = track_of_node (heap s ! b)"
    using vset vp vn by (auto simp: splice_heap_track)
qed

lemma demo_pair_built:
  "addTrack_all [demo_track ''A'' 233, demo_track ''B'' 200] (new_list []) = Some demo_pair"
  by code_simp

lemma demo_pair_reachable: "reachable demo_pair"
  using reachable_addTrack_all [OF reachable.new demo_pair_built] .

lemma demo_pair_getAllTracks: "getAllTracks demo_pair = Some [0, 1]"
  by code_simp

subsection \<open>Two facts about all reachable containers\<close>

text \<open>
  A first \<open>shuffle()\<close> followed by \<open>restoreOrder()\<close> keeps the shuffled order, whatever
  the random draws were: \<open>originalOrder\<close> no longer holds the order before the shuffle.
  And every public operation returns on every reachable container: no \<open>null\<close> is
  dereferenced and every loop ends.
\<close>

lemma shuffle_restoreOrder_keeps_shuffled_order:
  assumes rs: "reachable s" and ns: "\<not> isShuffled s" and sz: "2 \<le> size_l s"
  shows "\<exists>s1 s2 ts. shuffle rnd s = Some s1 \<and> restoreOrder s1 = Some s2 \<and>
           allTracks s1 = Some ts \<and> allTracks s2 = Some ts \<and> \<not> isShuffled s2"
proof -
  obtain r where W: "wf_list s r" using reachable_wf [OF rs] by blast
  have lr: "\<not> length r \<le> 1" using W sz by (simp add: wf_list_def)
  let ?n = "length (heap s)"
  let ?r1 = "[?n..<?n + length r]"
  obtain s1 where s1: "shuffle rnd s = Some s1" "wf_list s1 ?r1" "isShuffled s1"
    "originalOrder s1 = ?r1"
    using shuffle_wf [OF W, of rnd] lr ns by auto
  have "r \<noteq> []" using lr by auto
  then have ne: "\<not> (\<not> isShuffled s1 \<or> originalOrder s1 = [])" using s1(3,4) by simp
  let ?m = "length (heap s1)"
  let ?r2 = "[?m..<?m + length ?r1]"
  obtain s2 where s2: "restoreOrder s1 = Some s2" "wf_list s2 ?r2"
    "\<forall>k<length ?r1. track_of_node (heap s2 ! (?m + k)) = track_of_node (heap s1 ! (?r1 ! k))"
    "\<not> isShuffled s2"
    using restoreOrder_wf [OF s1(2)] ne unfolding s1(4) by auto
  have "map (\<lambda>a. track_of_node (heap s2 ! a)) ?r2 = map (\<lambda>a. track_of_node (heap s1 ! a)) ?r1"
    using s2(3) by (intro nth_equalityI) simp_all
  then have "allTracks s2 = allTracks s1"
    using allTracks_wf [OF s1(2)] allTracks_wf [OF s2(2)] by simp
  then show ?thesis using s1(1) s2(1) s2(4) allTracks_wf [OF s1(2)] by auto
qed

lemma reachable_operations_return:
  assumes "reachable s"
  shows "(\<exists>s'. addTrack t s = Some s') \<and> (\<exists>x. nextTrack s = Some x) \<and>
     (\<exists>x. prevTrack s = Some x) \<and> (\<exists>x. setCurrentTrack trackId s = Some x) \<and>
     (\<exists>s'. shuffle rnd s = Some s') \<and> (\<exists>s'. restoreOrder s = Some s') \<and>
     (\<exists>x. removeTrack trackId s = Some x) \<and> (\<exists>r. getAllTracks s = Some r) \<and>
     (\<exists>r. searchTracks q s = Some r) \<and> (\<exists>r. getTracksByGenre g s = Some r) \<and>
     (\<exists>d. getTotalDuration s = Some d) \<and> (\<exists>d. getFormattedTotalDuration s = Some d)"
proof -
  obtain r where W: "wf_list s r" using reachable_wf [OF assms] by blast
  have g: "getAllTracks s = Some r" using W by (rule getAllTracks_wf)
  have 1: "\<exists>s'. addTrack t s = Some s'" using addTrack_wf(1) [OF W] by blast
  have 2: "\<exists>x. nextTrack s = Some x" using nextTrack_wf [OF W] by blast
  have 3: "\<exists>x. prevTrack s = Some x" using prevTrack_wf [OF W] by blast
  have 4: "\<exists>x. setCurrentTrack trackId s = Some x" using setCurrentTrack_wf [OF W] by blast
  have 5: "\<exists>s'. shuffle rnd s = Some s'" using shuffle_wf [OF W] by blast
  have 6: "\<exists>s'. restoreOrder s = Some s'" using restoreOrder_wf [OF W] by blast
  have 7: "\<exists>x. removeTrack trackId s = Some x"
    by (rule removeTrack_cases [OF W, of trackId]) blast+
  have 8: "\<exists>r. searchTracks q s = Some r" using g by (simp add: searchTracks_def Let_def)
  have 9: "\<exists>r. getTracksByGenre g s = Some r" using g by (simp add: getTracksByGenre_def)
  have 10: "\<exists>d. getTotalDuration s = Some d" using g by (simp add: getTotalDuration_def)
  then have 11: "\<exists>d. getFormattedTotalDuration s = Some d"
    by (auto simp: getFormattedTotalDuration_def)
  show ?thesis using 1 2 3 4 5 6 7 g 8 9 10 11 by blast
qed

subsection \<open>Durations and their format\<close>

lemma js_add_Tracked:
  "isSafeInteger a \<Longrightarrow> isSafeInteger b \<Longrightarrow> isSafeInteger (a + b) \<Longrightarrow>
   js_add (Tracked a) (Tracked b) = Tracked (a + b)"
  by (simp add: js_add_def)

lemma isSafeInteger_0 [simp]: "isSafeInteger 0"
  by (simp add: isSafeInteger_def)

lemma foldl_js_add:
  "(\<forall>d\<in>set ds. isSafeInteger d) \<Longrightarrow>
   (\<forall>k\<le>length ds. isSafeInteger (sum_list (take k ds))) \<Longrightarrow>
   foldl js_add (Tracked 0) (map Tracked ds) = Tracked (sum_list ds)"
proof (induction ds rule: rev_induct)
  case Nil
  then show ?case by simp
next
  case (snoc d ds)
  have p: "\<forall>k\<le>length ds. isSafeInteger (sum_list (take k ds))"
  proof (intro allI impI)
    fix k assume k: "k \<le> length ds"
    then have "k \<le> length (ds @ [d])" by simp
    then have "isSafeInteger (sum_list (take k (ds @ [d])))" using snoc.prems(2) by blast
    moreover have "take k (ds @ [d]) = take k ds" using k by simp
    ultimately show "isSafeInteger (sum_list (take k ds))" by simp
  qed
  have ih: "foldl js_add (Tracked 0) (map Tracked ds) = Tracked (sum_list ds)"
    using snoc.prems(1) p by (intro snoc.IH) simp_all
  have s1: "isSafeInteger (sum_list ds)" using p by (metis order_refl take_all)
  have s2: "isSafeInteger d" using snoc.prems(1) by simp
  have "isSafeInteger (sum_list (take (length (ds @ [d])) (ds @ [d])))"
    using snoc.prems(2) by blast
  then have s3: "isSafeInteger (sum_list ds + d)" by simp
  show ?case using ih js_add_Tracked [OF s1 s2 s3] by simp
qed

lemma getTotalDuration_wf:
  "wf_list s r \<Longrightarrow>
   getTotalDuration s = Some (foldl js_add (Tracked 0) (map (\<lambda>a. duration (heap s ! a)) r))"
  by (simp add: getTotalDuration_def getAllTracks_wf foldl_map)

lemma toString_nat_lt10: "n < 10 \<Longrightarrow> toString_nat n = [char_of (48 + n)]"
  by (subst toString_nat.simps) simp

lemma toString_nat_lt100:
  "10 \<le> n \<Longrightarrow> n < 100 \<Longrightarrow> toString_nat n = [char_of (48 + n div 10), char_of (48 + n mod 10)]"
  by (subst toString_nat.simps) (simp add: toString_nat_lt10)

lemma char_of_48: "char_of (48::nat) = CHR ''0''"
  by code_simp

lemma padStart_two_digits: "n < 100 \<Longrightarrow> padStart 2 (CHR ''0'') (toString_nat n) = two_digits n"
proof (cases "n < 10")
  case True
  then show ?thesis
    by (simp add: toString_nat_lt10 padStart_def two_digits_def char_of_48)
next
  case False
  assume "n < 100"
  then show ?thesis using False
    by (simp add: toString_nat_lt100 padStart_def two_digits_def)
qed

lemma toString_int_nat:
  "n \<le> 9007199254740991 \<Longrightarrow> toString (int n) = Tracked (toString_nat n)"
  by (simp add: toString_def decimal_def)

lemma js_rem_int: "0 < b \<Longrightarrow> js_rem (int n) (int b) = int (n mod b)"
  by (cases "n = 0") (simp_all add: js_rem_def zmod_int)

lemma formatTotal_nat:
  assumes n: "n \<le> 9007199254740991"
  shows "formatTotal (Tracked (int n)) =
     Tracked (if 3600 \<le> n
      then toString_nat (n div 3600) @ '':'' @ two_digits (n div 60 mod 60) @ '':'' @
           two_digits (n mod 60)
      else toString_nat (n div 60) @ '':'' @ two_digits (n mod 60))"
proof -
  have sf: "isSafeInteger (int n)" using n by (simp add: isSafeInteger_def)
  have r1: "js_rem (int n) 3600 = int (n mod 3600)" using js_rem_int [of 3600 n] by simp
  have r2: "js_rem (int n) 60 = int (n mod 60)" using js_rem_int [of 60 n] by simp
  have h: "int n div 3600 = int (n div 3600)" by (simp add: zdiv_int)
  have m: "int (n mod 3600) div 60 = int (n mod 3600 div 60)" by (simp add: zdiv_int)
  have "n mod (60 * 60) = 60 * (n div 60 mod 60) + n mod 60" by (rule mod_mult2_eq)
  then have m1: "n mod 3600 div 60 = n div 60 mod 60" by simp
  have m2: "n < 3600 \<Longrightarrow> n div 60 mod 60 = n div 60" by simp
  have "n div 3600 \<le> n" by simp
  then have t1: "toString (int (n div 3600)) = Tracked (toString_nat (n div 3600))"
    using n by (intro toString_int_nat) linarith
  have t2: "toString (int (n div 60 mod 60)) = Tracked (toString_nat (n div 60 mod 60))"
    by (intro toString_int_nat) simp
  have "n mod 60 < 60" by simp
  then have t3: "toString (int (n mod 60)) = Tracked (toString_nat (n mod 60))"
    by (intro toString_int_nat) linarith
  have p1: "padStart 2 (CHR ''0'') (toString_nat (n div 60 mod 60)) = two_digits (n div 60 mod 60)"
    by (intro padStart_two_digits) simp
  have p2: "padStart 2 (CHR ''0'') (toString_nat (n mod 60)) = two_digits (n mod 60)"
    by (intro padStart_two_digits) simp
  show ?thesis
  proof (cases "3600 \<le> n")
    case True
    then have "0 < n div 3600" by (simp add: div_greater_zero_iff)
    then show ?thesis using sf True
      by (simp add: formatTotal_def Let_def r1 r2 h m m1 t1 t2 t3 p1 p2 tracked_bind_def)
  next
    case False
    then have z: "n div 3600 = 0" by simp
    have e: "n div 60 mod 60 = n div 60" using False by simp
    have h60: "int n div 60 = int (n div 60)" by (simp add: zdiv_int)
    show ?thesis using sf False z t2 p1 unfolding e
      by (simp add: formatTotal_def Let_def r1 r2 h h60 m m1 t3 p2 tracked_bind_def e)
  qed
qed

lemma of_char_digit: "d < 10 \<Longrightarrow> (of_char (char_of (48 + d :: nat)) :: nat) = 48 + d"
  by (simp add: of_char_of)

lemma is_digit_char: "d < 10 \<Longrightarrow> is_digit (char_of (48 + d :: nat))"
  by (simp add: is_digit_def of_char_digit)

lemma not_is_digit_colon: "\<not> is_digit (CHR '':'')"
  by (simp add: is_digit_def)

lemma list_all_digit_toString_nat: "list_all is_digit (toString_nat n)"
proof (induction n rule: toString_nat.induct)
  case (1 n)
  show ?case
  proof (cases "n < 10")
    case True
    then show ?thesis by (subst toString_nat.simps) (simp add: is_digit_char)
  next
    case False
    have "n mod 10 < 10" by simp
    then have "is_digit (char_of (48 + n mod 10))" by (rule is_digit_char)
    then show ?thesis using False 1 by (subst toString_nat.simps) simp
  qed
qed

lemma toString_nat_not_Nil: "toString_nat n \<noteq> []"
  by (subst toString_nat.simps) simp

lemma digits_toString_nat: "digits (toString_nat n)"
  by (simp add: digits_def list_all_digit_toString_nat toString_nat_not_Nil)

lemma digits_two_digits: "n < 100 \<Longrightarrow> digits (two_digits n)"
proof -
  assume "n < 100"
  then have "n div 10 < 10" "n mod 10 < 10" by simp_all
  then show ?thesis by (simp add: digits_def two_digits_def is_digit_char)
qed

lemma length_two_digits [simp]: "length (two_digits n) = 2"
  by (simp add: two_digits_def)

lemma digits_no_colon: "digits s \<Longrightarrow> CHR '':'' \<notin> set s"
  using not_is_digit_colon by (auto simp: digits_def list_all_iff)

lemma split_on_none: "c \<notin> set a \<Longrightarrow> split_on c a = [a]"
  by (induction a) auto

lemma split_on_append: "c \<notin> set a \<Longrightarrow> split_on c (a @ c # b) = a # split_on c b"
  by (induction a) auto

lemma shape_M_SS_I:
  assumes "digits m" "digits ss" "length ss = 2"
  shows "shape_M_SS (m @ '':'' @ ss)"
  using assms digits_no_colon [of m] digits_no_colon [of ss]
  by (simp add: shape_M_SS_def split_on_append split_on_none)

lemma shape_H_MM_SS_I:
  assumes "digits h" "digits mm" "length mm = 2" "digits ss" "length ss = 2"
  shows "shape_H_MM_SS (h @ '':'' @ mm @ '':'' @ ss)"
  using assms digits_no_colon [of h] digits_no_colon [of mm] digits_no_colon [of ss]
  by (simp add: shape_H_MM_SS_def split_on_append split_on_none)

lemma formatTotal_433: "formatTotal (Tracked 433) = Tracked ''7:13''"
  by code_simp

lemma nonneg_running_totals:
  assumes nn: "\<forall>d\<in>set ds. (0::int) \<le> d" and le: "sum_list ds \<le> 9007199254740991"
  shows "(\<forall>d\<in>set ds. isSafeInteger d) \<and>
         (\<forall>k\<le>length ds. isSafeInteger (sum_list (take k ds)))"
proof (intro conjI ballI allI impI)
  fix d assume d: "d \<in> set ds"
  have "d \<le> sum_list ds" using nn d by (intro member_le_sum_list) auto
  then show "isSafeInteger d" using nn d le by (auto simp: isSafeInteger_def)
next
  fix k assume "k \<le> length ds"
  have "sum_list ds = sum_list (take k ds) + sum_list (drop k ds)"
    by (metis append_take_drop_id sum_list_append)
  moreover have "0 \<le> sum_list (drop k ds)"
    using nn by (intro sum_list_nonneg) (auto dest: in_set_dropD)
  moreover have "0 \<le> sum_list (take k ds)"
    using nn by (intro sum_list_nonneg) (auto dest: in_set_takeD)
  ultimately show "isSafeInteger (sum_list (take k ds))" using le by (simp add: isSafeInteger_def)
qed

section \<open>The claims\<close>

text \<open>
  C1 fails on the code. The container built by inserting A and B is not shuffled, holds
  two tracks, and \<open>getAllTracks()\<close> is A, B. \<open>shuffle()\<close>, when its one random draw is
  index 0, makes it B, A; \<open>restoreOrder()\<close> afterwards resets the shuffled flag but
  \<open>getAllTracks()\<close> is still B, A, not A, B. The reason: \<open>shuffle\<close> sets \<open>isShuffled\<close>
  only after it has rebuilt the list with \<open>addTrack\<close>, and each of those calls runs
  \<open>updateOriginalOrder\<close> while \<open>isShuffled\<close> is still false, so \<open>originalOrder\<close> is
  overwritten with the shuffled order that \<open>restoreOrder\<close> then re-installs.
\<close>

theorem C1_shuffle_restoreOrder_failing_input:
  "addTrack_all [demo_track ''A'' 233, demo_track ''B'' 200] (new_list []) = Some demo_pair \<and>
   isShuffled demo_pair = False \<and> size_l demo_pair = 2 \<and>
   allTracks demo_pair = Some [demo_track ''A'' 233, demo_track ''B'' 200] \<and>
   (do {
      s1 \<leftarrow> shuffle (\<lambda>i. 0) demo_pair;
      ts1 \<leftarrow> allTracks s1;
      s2 \<leftarrow> restoreOrder s1;
      ts2 \<leftarrow> allTracks s2;
      Some (isShuffled s1, ts1, isShuffled s2, ts2)
    }) = Some (True, [demo_track ''B'' 200, demo_track ''A'' 233],
               False, [demo_track ''B'' 200, demo_track ''A'' 233])"
  by code_simp

text \<open>
  At that input the round trip does not give back what \<open>getAllTracks()\<close> returned before
  the shuffle.
\<close>

theorem C1_witness:
  "(do { s1 \<leftarrow> shuffle (\<lambda>i. 0) demo_pair; s2 \<leftarrow> restoreOrder s1; allTracks s2 })
     \<noteq> allTracks demo_pair"
proof -
  have ne: "[demo_track ''B'' 200, demo_track ''A'' 233] \<noteq> [demo_track ''A'' 233, demo_track ''B'' 200]"
    by (simp add: demo_track_def)
  have "(do { s1 \<leftarrow> shuffle (\<lambda>i. 0) demo_pair; s2 \<leftarrow> restoreOrder s1; allTracks s2 })
          = Some [demo_track ''B'' 200, demo_track ''A'' 233]"
    using C1_shuffle_restoreOrder_failing_input by (auto split: bind_splits)
  then show ?thesis using C1_shuffle_restoreOrder_failing_input ne by simp
qed

text \<open>
  C2. Inserting any finite sequence of tracks, one \<open>addTrack\<close> after the other, into a
  new container returns; afterwards \<open>getAllTracks()\<close> yields exactly those tracks in
  insertion order and \<open>getSize()\<close> is their number. The identifiers need not even be
  distinct for this, so the statement covers every sequence with pairwise distinct
  identifiers.
\<close>

theorem C2_insertion_order:
  "\<exists>s'. addTrack_all ts (new_list h) = Some s' \<and> allTracks s' = Some ts \<and>
        getSize s' = length ts"
proof -
  obtain s' where s': "addTrack_all ts (new_list h) = Some s'"
    "wf_list s' ([] @ [length (heap (new_list h))..<length (heap (new_list h)) + length ts])"
    "\<forall>k<length ts. track_of_node (heap s' ! (length (heap (new_list h)) + k)) = ts ! k"
    using addTrack_all_wf [OF wf_list_new, of ts h] by blast
  let ?n = "length (heap (new_list h))"
  have W: "wf_list s' [?n..<?n + length ts]" using s'(2) by simp
  have "map (\<lambda>a. track_of_node (heap s' ! a)) [?n..<?n + length ts] = ts"
    using s'(3) by (rule map_upt_nth_eq)
  then have "allTracks s' = Some ts" using allTracks_wf [OF W] by simp
  moreover have "getSize s' = length ts" using W by (simp add: wf_list_def getSize_def)
  ultimately show ?thesis using s'(1) by blast
qed

text \<open>
  C3 as stated fails where two tracks share an identifier, which \<open>addTrack\<close> accepts: after
  inserting two tracks with the identifier A, \<open>removeTrack("A")\<close> returns \<open>true\<close> and
  \<open>size\<close> is 1, but \<open>getAllTracks()\<close> still holds a track with the identifier A.
\<close>

theorem C3_counterexample:
  "(do {
      s \<leftarrow> addTrack_all [demo_track ''A'' 233, demo_track ''A'' 200] (new_list []);
      (ok, s') \<leftarrow> removeTrack ''A'' s;
      ts \<leftarrow> allTracks s';
      Some (ok, size_l s', map t_id ts)
    }) = Some (True, 1, [''A''])"
  by code_simp

text \<open>
  C3, as amended. In every container that the public operations can produce, with \<open>r\<close>
  the nodes of \<open>getAllTracks()\<close>: \<open>removeTrack(trackId)\<close> returns, and it returns
  \<open>true\<close> exactly when some node of \<open>r\<close> has the identifier. When it returns
  \<open>false\<close> the container is unchanged (so \<open>size\<close>, \<open>getAllTracks()\<close>, \<open>head\<close> and
  \<open>current\<close> are). When it returns \<open>true\<close>, the node \<open>a\<close> removed is the first node of
  \<open>r\<close> with the identifier: \<open>getAllTracks()\<close> is \<open>r\<close> without it, the other tracks as
  they were, and \<open>size\<close> is one less; the identifier no longer appears provided no later
  node carried it as well (as is the case when identifiers are pairwise distinct); if
  \<open>a\<close> was the only node, \<open>head\<close> and \<open>current\<close> are \<open>null\<close> and \<open>size\<close> is 0;
  otherwise \<open>head\<close>, if it was \<open>a\<close>, becomes \<open>a\<close>'s former \<open>next\<close> and is unchanged if
  not, and likewise \<open>current\<close>.
\<close>

theorem C3_removeTrack:
  assumes "reachable s"
  shows "\<exists>ok s' r. removeTrack trackId s = Some (ok, s') \<and> getAllTracks s = Some r \<and>
     (ok \<longleftrightarrow> trackId \<in> set (map (\<lambda>b. id_n (heap s ! b)) r)) \<and>
     (\<not> ok \<longrightarrow> s' = s) \<and>
     (ok \<longrightarrow>
        (\<exists>xs a ys. r = xs @ a # ys \<and> id_n (heap s ! a) = trackId \<and>
           (\<forall>x\<in>set xs. id_n (heap s ! x) \<noteq> trackId) \<and>
           getAllTracks s' = Some (xs @ ys) \<and>
           map (\<lambda>b. track_of_node (heap s' ! b)) (xs @ ys) =
             map (\<lambda>b. track_of_node (heap s ! b)) (xs @ ys) \<and>
           size_l s' + 1 = size_l s \<and>
           (trackId \<notin> set (map (\<lambda>b. id_n (heap s ! b)) ys) \<longrightarrow>
              trackId \<notin> set (map (\<lambda>b. id_n (heap s' ! b)) (xs @ ys))) \<and>
           (if xs @ ys = [] then head s' = None \<and> current s' = None \<and> size_l s' = 0
            else head s' = (if head s = Some a then next_n (heap s ! a) else head s) \<and>
                 current s' = (if current s = Some a then next_n (heap s ! a) else current s))))"
proof -
  obtain r where W: "wf_list s r" using reachable_wf [OF assms] by blast
  have g: "getAllTracks s = Some r" using W by (rule getAllTracks_wf)
  show ?thesis
  proof (rule removeTrack_cases [OF W, of trackId])
    assume nf: "find (\<lambda>a. id_n (heap s ! a) = trackId) r = None"
      and e: "removeTrack trackId s = Some (False, s)"
    have "trackId \<notin> set (map (\<lambda>b. id_n (heap s ! b)) r)" using nf by (auto simp: find_None_iff)
    then show ?thesis using e g by auto
  next
    fix a assume r: "r = [a]" and ia: "id_n (heap s ! a) = trackId"
      and e: "removeTrack trackId s = Some (True, clear s)"
    have sz: "size_l s = 1" using W r by (simp add: wf_list_def)
    have gc: "getAllTracks (clear s) = Some []" by (simp add: getAllTracks_def clear_def)
    have in_r: "trackId \<in> set (map (\<lambda>b. id_n (heap s ! b)) r)" using r ia by simp
    have "\<exists>xs a ys. r = xs @ a # ys \<and> id_n (heap s ! a) = trackId \<and>
           (\<forall>x\<in>set xs. id_n (heap s ! x) \<noteq> trackId) \<and>
           getAllTracks (clear s) = Some (xs @ ys) \<and>
           map (\<lambda>b. track_of_node (heap (clear s) ! b)) (xs @ ys) =
             map (\<lambda>b. track_of_node (heap s ! b)) (xs @ ys) \<and>
           size_l (clear s) + 1 = size_l s \<and>
           (trackId \<notin> set (map (\<lambda>b. id_n (heap s ! b)) ys) \<longrightarrow>
              trackId \<notin> set (map (\<lambda>b. id_n (heap (clear s) ! b)) (xs @ ys))) \<and>
           (if xs @ ys = [] then head (clear s) = None \<and> current (clear s) = None \<and> size_l (clear s) = 0
            else head (clear s) = (if head s = Some a then next_n (heap s ! a) else head s) \<and>
                 current (clear s) = (if current s = Some a then next_n (heap s ! a) else current s))"
      using r ia sz gc
      by - (rule exI [of _ "[]"], rule exI [of _ a], rule exI [of _ "[]"], simp add: clear_def)
    then show ?thesis using e g in_r
      by - (rule exI [of _ True], rule exI [of _ "clear s"], rule exI [of _ r], simp)
  next
    fix xs a ys
    assume r: "r = xs @ a # ys" and ne: "xs @ ys \<noteq> []"
      and nxs: "\<forall>x\<in>set xs. id_n (heap s ! x) \<noteq> trackId" and ia: "id_n (heap s ! a) = trackId"
      and e: "removeTrack trackId s = Some (True, removeTrack_post s xs a ys)"
      and W': "wf_list (removeTrack_post s xs a ys) (xs @ ys)"
    let ?s' = "removeTrack_post s xs a ys"
    have Wr: "wf_list s (xs @ a # ys)" using W r by simp
    have ne': "ys @ xs \<noteq> []" using ne by auto
    note f = removeTrack_post_fields [OF Wr ne']
    have g': "getAllTracks ?s' = Some (xs @ ys)" using W' by (rule getAllTracks_wf)
    have tr: "map (\<lambda>b. track_of_node (heap ?s' ! b)) (xs @ ys) =
             map (\<lambda>b. track_of_node (heap s ! b)) (xs @ ys)"
      using f(4) by (intro map_cong) simp_all
    have ids: "map (\<lambda>b. id_n (heap ?s' ! b)) (xs @ ys) = map (\<lambda>b. id_n (heap s ! b)) (xs @ ys)"
    proof -
      have "map t_id (map (\<lambda>b. track_of_node (heap ?s' ! b)) (xs @ ys)) =
            map t_id (map (\<lambda>b. track_of_node (heap s ! b)) (xs @ ys))"
        by (simp only: tr)
      then show ?thesis by simp
    qed
    have once: "trackId \<notin> set (map (\<lambda>b. id_n (heap s ! b)) ys) \<longrightarrow>
              trackId \<notin> set (map (\<lambda>b. id_n (heap ?s' ! b)) (xs @ ys))"
      unfolding ids using nxs by auto
    have in_r: "trackId \<in> set (map (\<lambda>b. id_n (heap s ! b)) r)" using r ia by simp
    have "\<exists>xs a ys. r = xs @ a # ys \<and> id_n (heap s ! a) = trackId \<and>
           (\<forall>x\<in>set xs. id_n (heap s ! x) \<noteq> trackId) \<and>
           getAllTracks ?s' = Some (xs @ ys) \<and>
           map (\<lambda>b. track_of_node (heap ?s' ! b)) (xs @ ys) =
             map (\<lambda>b. track_of_node (heap s ! b)) (xs @ ys) \<and>
           size_l ?s' + 1 = size_l s \<and>
           (trackId \<notin> set (map (\<lambda>b. id_n (heap s ! b)) ys) \<longrightarrow>
              trackId \<notin> set (map (\<lambda>b. id_n (heap ?s' ! b)) (xs @ ys))) \<and>
           (if xs @ ys = [] then head ?s' = None \<and> current ?s' = None \<and> size_l ?s' = 0
            else head ?s' = (if head s = Some a then next_n (heap s ! a) else head s) \<and>
                 current ?s' = (if current s = Some a then next_n (heap s ! a) else current s))"
      apply (rule exI [of _ xs], rule exI [of _ a], rule exI [of _ ys])
      using r ia nxs g' tr f(1) f(2) f(3) once ne by auto
    then show ?thesis using e g in_r
      by - (rule exI [of _ True], rule exI [of _ ?s'], rule exI [of _ r], simp)
  qed
qed

text \<open>
  In the container holding A, B, C: removing B succeeds, removing Z fails.
\<close>

theorem C3_witness:
  "reachable demo_list \<and>
   map_option fst (removeTrack ''B'' demo_list) = Some True \<and>
   map_option fst (removeTrack ''Z'' demo_list) = Some False \<and>
   (\<exists>ok s' r. removeTrack ''B'' demo_list = Some (ok, s') \<and> getAllTracks demo_list = Some r \<and>
     (ok \<longleftrightarrow> ''B'' \<in> set (map (\<lambda>b. id_n (heap demo_list ! b)) r)) \<and>
     (\<not> ok \<longrightarrow> s' = demo_list) \<and>
     (ok \<longrightarrow>
        (\<exists>xs a ys. r = xs @ a # ys \<and> id_n (heap demo_list ! a) = ''B'' \<and>
           (\<forall>x\<in>set xs. id_n (heap demo_list ! x) \<noteq> ''B'') \<and>
           getAllTracks s' = Some (xs @ ys) \<and>
           map (\<lambda>b. track_of_node (heap s' ! b)) (xs @ ys) =
             map (\<lambda>b. track_of_node (heap demo_list ! b)) (xs @ ys) \<and>
           size_l s' + 1 = size_l demo_list \<and>
           (''B'' \<notin> set (map (\<lambda>b. id_n (heap demo_list ! b)) ys) \<longrightarrow>
              ''B'' \<notin> set (map (\<lambda>b. id_n (heap s' ! b)) (xs @ ys))) \<and>
           (if xs @ ys = [] then head s' = None \<and> current s' = None \<and> size_l s' = 0
            else head s' = (if head demo_list = Some a then next_n (heap demo_list ! a) else head demo_list) \<and>
                 current s' = (if current demo_list = Some a then next_n (heap demo_list ! a)
                               else current demo_list)))))"
proof -
  have a: "map_option fst (removeTrack ''B'' demo_list) = Some True" by code_simp
  have b: "map_option fst (removeTrack ''Z'' demo_list) = Some False" by code_simp
  show ?thesis
    by (intro conjI demo_reachable a b C3_removeTrack [OF demo_reachable])
qed

text \<open>
  C4. In every container that the public operations can produce: if it is not empty,
  \<open>current\<close> is a node, and calling \<open>nextTrack()\<close> exactly \<open>size\<close> times returns
  and leaves the container as it was, \<open>current\<close> being the node it started at; the same
  holds for \<open>prevTrack()\<close>. If it is empty, both return \<open>null\<close> and change nothing.
\<close>

theorem C4_circular_wraparound:
  assumes "reachable s"
  shows "(0 < size_l s \<longrightarrow>
            current s \<noteq> None \<and>
            times (size_l s) nextTrack s = Some s \<and> times (size_l s) prevTrack s = Some s) \<and>
         (size_l s = 0 \<longrightarrow> nextTrack s = Some (None, s) \<and> prevTrack s = Some (None, s))"
proof -
  obtain r where W: "wf_list s r" using reachable_wf [OF assms] by blast
  have sz: "size_l s = length r" using W by (simp add: wf_list_def)
  show ?thesis
  proof (cases "r = []")
    case True
    then have "current s = None" using W by (simp add: wf_list_def)
    then show ?thesis using True sz by (simp add: nextTrack_def prevTrack_def)
  next
    case False
    then obtain c where "c \<in> set r" "current s = Some c" using W by (auto simp: wf_list_def)
    then obtain i where i: "i < length r" "current s = Some (r ! i)" by (auto simp: in_set_conv_nth)
    have "times (length r) nextTrack s = Some (s\<lparr>current := Some (r ! i)\<rparr>)"
      using times_nextTrack_ring [OF W i, of "length r"] i(1) by simp
    moreover have "times (length r) prevTrack s = Some (s\<lparr>current := Some (r ! i)\<rparr>)"
      using i by (intro times_prevTrack_ring [OF W]) simp_all
    ultimately show ?thesis using False sz i(2) by (simp add: record_current_same)
  qed
qed

text \<open>
  The container holding the tracks A, B, C (three calls in each direction), and the new,
  empty container.
\<close>

theorem C4_witness:
  "reachable demo_list \<and> 0 < size_l demo_list \<and> current demo_list \<noteq> None \<and>
   times (size_l demo_list) nextTrack demo_list = Some demo_list \<and>
   times (size_l demo_list) prevTrack demo_list = Some demo_list \<and>
   reachable (new_list []) \<and> size_l (new_list []) = 0 \<and>
   nextTrack (new_list []) = Some (None, new_list []) \<and>
   prevTrack (new_list []) = Some (None, new_list [])"
  using C4_circular_wraparound [OF demo_reachable] demo_reachable
    C4_circular_wraparound [OF reachable.new, of "[]"] reachable.new [of "[]"]
  by (simp add: demo_list_def new_list_def)

text \<open>
  C5. After every sequence of public operations: \<open>size\<close> is 0 exactly when \<open>head\<close> is
  \<open>null\<close>, and exactly when \<open>current\<close> is \<open>null\<close>. When \<open>size > 0\<close>, the nodes
  \<open>r\<close> that \<open>getAllTracks()\<close> returns are \<open>size\<close> pairwise different nodes; following
  \<open>next\<close> from \<open>head\<close> \<open>k < size\<close> times leads to the \<open>k\<close>-th of them and \<open>size\<close> times
  back to \<open>head\<close>; following \<open>prev\<close> visits them in the opposite order and is back at
  \<open>head\<close> after \<open>size\<close> steps; and every node \<open>a\<close> of the ring has
  \<open>a.next.prev == a\<close> and \<open>a.prev.next == a\<close>.
\<close>

theorem C5_ring_invariant:
  assumes "reachable s"
  shows "(size_l s = 0 \<longleftrightarrow> head s = None) \<and> (size_l s = 0 \<longleftrightarrow> current s = None) \<and>
     (0 < size_l s \<longrightarrow>
        (\<exists>hd_a r. head s = Some hd_a \<and> getAllTracks s = Some r \<and>
           length r = size_l s \<and> distinct r \<and>
           (\<forall>k<size_l s. follow next_n (heap s) k hd_a = Some (r ! k)) \<and>
           follow next_n (heap s) (size_l s) hd_a = Some hd_a \<and>
           (\<forall>k<size_l s. follow prev (heap s) (Suc k) hd_a = Some (r ! (size_l s - Suc k))) \<and>
           follow prev (heap s) (size_l s) hd_a = Some hd_a \<and>
           (\<forall>a\<in>set r. follow next_n (heap s) 1 a \<bind> follow prev (heap s) 1 = Some a \<and>
                        follow prev (heap s) 1 a \<bind> follow next_n (heap s) 1 = Some a)))"
proof -
  obtain r where W: "wf_list s r" using reachable_wf [OF assms] by blast
  have sz: "size_l s = length r" using W by (simp add: wf_list_def)
  have R: "ring_at (heap s) r" using W by (simp add: wf_list_def)
  have hd: "head s = (if r = [] then None else Some (r ! 0))" using W by (simp add: wf_list_def)
  have c0: "r = [] \<longrightarrow> current s = None" and c1: "r \<noteq> [] \<longrightarrow> current s \<noteq> None"
    using W by (auto simp: wf_list_def)
  have A: "(size_l s = 0 \<longleftrightarrow> head s = None) \<and> (size_l s = 0 \<longleftrightarrow> current s = None)"
    using sz hd c0 c1 by auto
  have B: "\<exists>hd_a r. head s = Some hd_a \<and> getAllTracks s = Some r \<and>
           length r = size_l s \<and> distinct r \<and>
           (\<forall>k<size_l s. follow next_n (heap s) k hd_a = Some (r ! k)) \<and>
           follow next_n (heap s) (size_l s) hd_a = Some hd_a \<and>
           (\<forall>k<size_l s. follow prev (heap s) (Suc k) hd_a = Some (r ! (size_l s - Suc k))) \<and>
           follow prev (heap s) (size_l s) hd_a = Some hd_a \<and>
           (\<forall>a\<in>set r. follow next_n (heap s) 1 a \<bind> follow prev (heap s) 1 = Some a \<and>
                        follow prev (heap s) 1 a \<bind> follow next_n (heap s) 1 = Some a)"
    if pos: "0 < size_l s"
  proof -
    let ?n = "length r"
    have n0: "0 < ?n" using pos sz by simp
    have ne: "r \<noteq> []" using n0 by auto
    have f1: "\<forall>k<size_l s. follow next_n (heap s) k (r ! 0) = Some (r ! k)"
      using follow_next_ring [OF R n0] sz by simp
    have f2: "follow next_n (heap s) (size_l s) (r ! 0) = Some (r ! 0)"
      using follow_next_ring [OF R n0, of ?n] sz by simp
    have f3: "\<forall>k<size_l s. follow prev (heap s) (Suc k) (r ! 0) = Some (r ! (size_l s - Suc k))"
    proof (intro allI impI)
      fix k assume k: "k < size_l s"
      then have i: "?n - Suc k < ?n" using sz by simp
      have "?n - Suc k + Suc k = ?n" using k sz by arith
      then have "(?n - Suc k + Suc k) mod ?n = 0" by (simp only: mod_self)
      then show "follow prev (heap s) (Suc k) (r ! 0) = Some (r ! (size_l s - Suc k))"
        using follow_prev_ring [OF R i, of "Suc k"] sz by simp
    qed
    have f4: "follow prev (heap s) (size_l s) (r ! 0) = Some (r ! 0)"
      using follow_prev_ring [OF R n0, of ?n] sz by simp
    have f5: "\<forall>a\<in>set r. follow next_n (heap s) 1 a \<bind> follow prev (heap s) 1 = Some a \<and>
                        follow prev (heap s) 1 a \<bind> follow next_n (heap s) 1 = Some a"
    proof
      fix a assume "a \<in> set r"
      then obtain i where i: "i < ?n" "r ! i = a" by (auto simp: in_set_conv_nth)
      obtain j where j: "j < ?n" "Suc j mod ?n = i" using ring_index_pred [OF i(1)] by blast
      have n1: "follow next_n (heap s) 1 (r ! i) = Some (r ! ((i + 1) mod ?n))"
        using R i(1) by (rule follow_next_ring)
      have p1: "follow prev (heap s) 1 (r ! ((i + 1) mod ?n)) = Some (r ! i)"
        using R i(1) by (rule follow_prev_ring)
      have p2: "follow prev (heap s) 1 (r ! ((j + 1) mod ?n)) = Some (r ! j)"
        using R j(1) by (rule follow_prev_ring)
      have n2: "follow next_n (heap s) 1 (r ! j) = Some (r ! ((j + 1) mod ?n))"
        using R j(1) by (rule follow_next_ring)
      have "follow next_n (heap s) 1 a \<bind> follow prev (heap s) 1 = Some a"
        using n1 p1 i(2) by simp
      moreover have "follow prev (heap s) 1 a \<bind> follow next_n (heap s) 1 = Some a"
        using p2 n2 j(2) i(2) by simp
      ultimately show "follow next_n (heap s) 1 a \<bind> follow prev (heap s) 1 = Some a \<and>
                        follow prev (heap s) 1 a \<bind> follow next_n (heap s) 1 = Some a" ..
    qed
    have h0: "head s = Some (r ! 0)" using hd ne by simp
    have g0: "getAllTracks s = Some r" using W by (rule getAllTracks_wf)
    have d0: "distinct r" using R by (rule ring_at_distinctD)
    show ?thesis
      by (rule exI [of _ "r ! 0"], rule exI [of _ r])
         (intro conjI h0 g0 d0 sz [symmetric] f1 f2 f3 f4 f5)
  qed
  show ?thesis using A B by blast
qed

text \<open>
  The container holding the tracks A, B, C.
\<close>

theorem C5_witness:
  "reachable demo_list \<and> 0 < size_l demo_list \<and> getAllTracks demo_list = Some [0, 1, 2] \<and>
   (\<exists>hd_a r. head demo_list = Some hd_a \<and> getAllTracks demo_list = Some r \<and>
           length r = size_l demo_list \<and> distinct r \<and>
           (\<forall>k<size_l demo_list. follow next_n (heap demo_list) k hd_a = Some (r ! k)) \<and>
           follow next_n (heap demo_list) (size_l demo_list) hd_a = Some hd_a \<and>
           (\<forall>k<size_l demo_list. follow prev (heap demo_list) (Suc k) hd_a =
                Some (r ! (size_l demo_list - Suc k))) \<and>
           follow prev (heap demo_list) (size_l demo_list) hd_a = Some hd_a \<and>
           (\<forall>a\<in>set r. follow next_n (heap demo_list) 1 a \<bind> follow prev (heap demo_list) 1 = Some a \<and>
                        follow prev (heap demo_list) 1 a \<bind> follow next_n (heap demo_list) 1 = Some a))"
proof -
  have pos: "0 < size_l demo_list" by (simp add: demo_list_def)
  show ?thesis
    using C5_ring_invariant [OF demo_reachable] pos demo_reachable demo_getAllTracks by blast
qed

text \<open>
  C6. In every container that the public operations can produce, and for every outcome
  \<open>rnd\<close> of the random draws, \<open>shuffle()\<close> returns; afterwards the identifiers (and the
  whole track data) of \<open>getAllTracks()\<close> are the same multiset as before and \<open>size\<close> is
  unchanged; and when \<open>size \<le> 1\<close> the state is not changed at all.
\<close>

theorem C6_shuffle_permutation:
  assumes "reachable s"
  shows "\<exists>s' r r'. shuffle rnd s = Some s' \<and> getAllTracks s = Some r \<and>
     getAllTracks s' = Some r' \<and>
     mset (map (\<lambda>a. id_n (heap s' ! a)) r') = mset (map (\<lambda>a. id_n (heap s ! a)) r) \<and>
     mset (map (\<lambda>a. track_of_node (heap s' ! a)) r') =
       mset (map (\<lambda>a. track_of_node (heap s ! a)) r) \<and>
     size_l s' = size_l s \<and> (size_l s \<le> 1 \<longrightarrow> s' = s)"
proof -
  obtain r where W: "wf_list s r" using reachable_wf [OF assms] by blast
  have g: "getAllTracks s = Some r" using W by (rule getAllTracks_wf)
  have sz: "size_l s = length r" using W by (simp add: wf_list_def)
  show ?thesis
  proof (cases "length r \<le> 1")
    case True
    then have "shuffle rnd s = Some s" using shuffle_wf [OF W, of rnd] by simp
    then show ?thesis using g by auto
  next
    case False
    let ?n = "length (heap s)"
    let ?as = "fisherYates rnd (length r - 1) r"
    let ?r' = "[?n..<?n + length r]"
    obtain s' where s': "shuffle rnd s = Some s'" "wf_list s' ?r'"
      "\<forall>k<length r. track_of_node (heap s' ! (?n + k)) = track_of_node (heap s ! (?as ! k))"
      using shuffle_wf [OF W, of rnd] False by auto
    have g': "getAllTracks s' = Some ?r'" using s'(2) by (rule getAllTracks_wf)
    have sz': "size_l s' = length r" using s'(2) by (simp add: wf_list_def)
    have tr: "map (\<lambda>a. track_of_node (heap s' ! a)) ?r' = map (\<lambda>a. track_of_node (heap s ! a)) ?as"
      using s'(3) by (intro nth_equalityI) simp_all
    have ms: "mset ?as = mset r" using False by (intro mset_fisherYates) simp
    have mt: "mset (map (\<lambda>a. track_of_node (heap s' ! a)) ?r') =
        mset (map (\<lambda>a. track_of_node (heap s ! a)) r)"
      unfolding tr using ms by (metis mset_map)
    have "map (\<lambda>a. id_n (heap s' ! a)) ?r' = map t_id (map (\<lambda>a. track_of_node (heap s' ! a)) ?r')"
      by simp
    also have "mset \<dots> = mset (map t_id (map (\<lambda>a. track_of_node (heap s ! a)) r))"
      using mt by (metis mset_map)
    also have "map t_id (map (\<lambda>a. track_of_node (heap s ! a)) r) = map (\<lambda>a. id_n (heap s ! a)) r"
      by simp
    finally have mi: "mset (map (\<lambda>a. id_n (heap s' ! a)) ?r') = mset (map (\<lambda>a. id_n (heap s ! a)) r)" .
    show ?thesis using s'(1) g g' mi mt sz sz' False by auto
  qed
qed

text \<open>
  The new, empty container (no-op) and the container holding the tracks A, B, C.
\<close>

theorem C6_witness:
  "reachable demo_list \<and> reachable (new_list []) \<and> size_l (new_list []) \<le> 1 \<and>
   shuffle (\<lambda>i. 0) (new_list []) = Some (new_list []) \<and>
   (\<exists>s' r r'. shuffle (\<lambda>i. 0) demo_list = Some s' \<and> getAllTracks demo_list = Some r \<and>
     getAllTracks s' = Some r' \<and>
     mset (map (\<lambda>a. id_n (heap s' ! a)) r') = mset (map (\<lambda>a. id_n (heap demo_list ! a)) r) \<and>
     mset (map (\<lambda>a. track_of_node (heap s' ! a)) r') =
       mset (map (\<lambda>a. track_of_node (heap demo_list ! a)) r) \<and>
     size_l s' = size_l demo_list)"
proof -
  have "size_l (new_list []) \<le> 1" by (simp add: new_list_def)
  then have "shuffle (\<lambda>i. 0) (new_list []) = Some (new_list [])"
    using C6_shuffle_permutation [OF reachable.new, of "\<lambda>i. 0" "[]"] by auto
  then show ?thesis
    using C6_shuffle_permutation [OF demo_reachable, of "\<lambda>i. 0"] demo_reachable
      reachable.new [of "[]"]
    by (auto simp: new_list_def)
qed

text \<open>
  C7. In every container that the public operations can produce, with \<open>r\<close> the nodes of
  \<open>getAllTracks()\<close>, in ring order from \<open>head\<close>: if some node has the identifier
  \<open>trackId\<close>, then \<open>setCurrentTrack(trackId)\<close> returns the first such node of \<open>r\<close> and
  changes nothing but \<open>current\<close>, which becomes that node; otherwise (also when the
  container is empty) it returns \<open>null\<close> and the container is unchanged.
\<close>

theorem C7_setCurrentTrack:
  assumes "reachable s"
  shows "\<exists>r. getAllTracks s = Some r \<and>
     (if trackId \<in> set (map (\<lambda>a. id_n (heap s ! a)) r)
      then \<exists>xs node ys. r = xs @ node # ys \<and> id_n (heap s ! node) = trackId \<and>
             (\<forall>x\<in>set xs. id_n (heap s ! x) \<noteq> trackId) \<and>
             setCurrentTrack trackId s = Some (Some node, s\<lparr>current := Some node\<rparr>)
      else setCurrentTrack trackId s = Some (None, s))"
proof -
  obtain r where W: "wf_list s r" using reachable_wf [OF assms] by blast
  let ?P = "\<lambda>a. id_n (heap s ! a) = trackId"
  have g: "getAllTracks s = Some r" using W by (rule getAllTracks_wf)
  show ?thesis
  proof (cases "find ?P r")
    case None
    then have "trackId \<notin> set (map (\<lambda>a. id_n (heap s ! a)) r)"
      by (auto simp: find_None_iff)
    then show ?thesis using g None by (simp add: setCurrentTrack_wf [OF W])
  next
    case (Some node)
    then obtain xs ys where sp: "r = xs @ node # ys" "?P node" "\<forall>x\<in>set xs. \<not> ?P x"
      using find_Some_split [of ?P r node] by blast
    have "trackId \<in> set (map (\<lambda>a. id_n (heap s ! a)) r)" using sp(1,2) by auto
    moreover have "setCurrentTrack trackId s = Some (Some node, s\<lparr>current := Some node\<rparr>)"
      using Some by (simp add: setCurrentTrack_wf [OF W])
    ultimately show ?thesis using g sp by auto
  qed
qed

text \<open>
  In the container holding A, B, C: selecting B gives node 1; selecting Z changes nothing.
\<close>

theorem C7_witness:
  "reachable demo_list \<and> getAllTracks demo_list = Some [0, 1, 2] \<and>
   setCurrentTrack ''B'' demo_list = Some (Some 1, demo_list\<lparr>current := Some 1\<rparr>) \<and>
   setCurrentTrack ''Z'' demo_list = Some (None, demo_list)"
proof -
  have ids: "map (\<lambda>a. id_n (heap demo_list ! a)) [0, 1, 2] = [''A'', ''B'', ''C'']"
    by (simp add: demo_list_def demo_node_def)
  obtain xs node ys where n: "[0, 1, 2] = xs @ node # ys" "id_n (heap demo_list ! node) = ''B''"
    "setCurrentTrack ''B'' demo_list = Some (Some node, demo_list\<lparr>current := Some node\<rparr>)"
    using C7_setCurrentTrack [OF demo_reachable, of "''B''"] demo_getAllTracks ids by auto
  have "node \<in> set [0, 1, 2::nat]" using n(1) by (metis in_set_conv_decomp)
  then have "node = 1" using n(2) by (auto simp: demo_list_def demo_node_def)
  moreover have "setCurrentTrack ''Z'' demo_list = Some (None, demo_list)"
    using C7_setCurrentTrack [OF demo_reachable, of "''Z''"] demo_getAllTracks ids by auto
  ultimately show ?thesis using n(3) demo_reachable demo_getAllTracks by simp
qed

text \<open>
  C8. \<open>clear()\<close>, from every state of the container, gives the empty state: \<open>head\<close>
  and \<open>current\<close> are \<open>null\<close> and \<open>size\<close> is 0; the shuffled flag and the
  \<open>originalOrder\<close> snapshot are what they were before the call (and no node of the
  store is touched).
\<close>

theorem C8_clear_resets_and_frames:
  "head (clear s) = None \<and> current (clear s) = None \<and> size_l (clear s) = 0 \<and>
   isShuffled (clear s) = isShuffled s \<and> originalOrder (clear s) = originalOrder s \<and>
   heap (clear s) = heap s"
  by (simp add: clear_def)

text \<open>
  C9 as stated fails for a total that is negative, which \<open>addTrack\<close> does not exclude: a
  container with one track of duration -1 has the total -1, below one hour, and its
  formatted total is \<open>-1:-1\<close>, which is not of the form M:SS.
\<close>

theorem C9_counterexample:
  "(do {
      s \<leftarrow> addTrack_all [demo_track ''A'' (- 1)] (new_list []);
      t \<leftarrow> getTotalDuration s;
      f \<leftarrow> getFormattedTotalDuration s;
      Some (t, f, tracked_bind f (\<lambda>out. Tracked (shape_M_SS out)))
    }) = Some (Tracked (- 1), Tracked ''-1:-1'', Tracked False)"
  by code_simp

text \<open>
  C9, as amended. In every container that the public operations can produce, with \<open>r\<close>
  the nodes of \<open>getAllTracks()\<close>: if the durations are safe integers \<open>ds\<close> and every
  running total of them is a safe integer too (as with durations that are not negative
  and sum to at most \<open>2^53 - 1\<close>: lemma \<open>nonneg_running_totals\<close>), then
  \<open>getTotalDuration()\<close> returns their exact sum; and if that sum is not negative,
  \<open>getFormattedTotalDuration()\<close> returns H:MM:SS when it is at least one hour and M:SS
  otherwise: the hours, or the minutes, in decimal, then minutes and seconds as two
  decimal digits each. A container whose tracks have the durations 233 and 200 has the
  total 433, formatted \<open>7:13\<close>.
\<close>

theorem C9_total_duration:
  assumes "reachable s"
  shows "\<exists>r. getAllTracks s = Some r \<and>
     (\<forall>ds. map (\<lambda>a. duration (heap s ! a)) r = map Tracked ds \<and>
           (\<forall>d\<in>set ds. isSafeInteger d) \<and>
           (\<forall>k\<le>length ds. isSafeInteger (sum_list (take k ds))) \<longrightarrow>
        getTotalDuration s = Some (Tracked (sum_list ds)) \<and>
        (0 \<le> sum_list ds \<longrightarrow>
           (\<exists>out. getFormattedTotalDuration s = Some (Tracked out) \<and>
              out =
                (if 3600 \<le> sum_list ds
                 then toString_nat (nat (sum_list ds) div 3600) @ '':'' @
                      two_digits (nat (sum_list ds) div 60 mod 60) @ '':'' @
                      two_digits (nat (sum_list ds) mod 60)
                 else toString_nat (nat (sum_list ds) div 60) @ '':'' @
                      two_digits (nat (sum_list ds) mod 60)) \<and>
              (if 3600 \<le> sum_list ds then shape_H_MM_SS out else shape_M_SS out)))) \<and>
     (map (\<lambda>a. duration (heap s ! a)) r = [Tracked 233, Tracked 200] \<longrightarrow>
        getTotalDuration s = Some (Tracked 433) \<and>
        getFormattedTotalDuration s = Some (Tracked ''7:13''))"
proof -
  obtain r where W: "wf_list s r" using reachable_wf [OF assms] by blast
  have g: "getAllTracks s = Some r" using W by (rule getAllTracks_wf)
  note t = getTotalDuration_wf [OF W]
  have A: "getTotalDuration s = Some (Tracked (sum_list ds)) \<and>
        (0 \<le> sum_list ds \<longrightarrow>
           (\<exists>out. getFormattedTotalDuration s = Some (Tracked out) \<and>
              out =
                (if 3600 \<le> sum_list ds
                 then toString_nat (nat (sum_list ds) div 3600) @ '':'' @
                      two_digits (nat (sum_list ds) div 60 mod 60) @ '':'' @
                      two_digits (nat (sum_list ds) mod 60)
                 else toString_nat (nat (sum_list ds) div 60) @ '':'' @
                      two_digits (nat (sum_list ds) mod 60)) \<and>
              (if 3600 \<le> sum_list ds then shape_H_MM_SS out else shape_M_SS out)))"
    if h: "map (\<lambda>a. duration (heap s ! a)) r = map Tracked ds \<and>
           (\<forall>d\<in>set ds. isSafeInteger d) \<and>
           (\<forall>k\<le>length ds. isSafeInteger (sum_list (take k ds)))" for ds
  proof -
    have tot: "getTotalDuration s = Some (Tracked (sum_list ds))"
      using t h foldl_js_add [of ds] by simp
    have "isSafeInteger (sum_list (take (length ds) ds))" using h by blast
    then have sf: "isSafeInteger (sum_list ds)" by simp
    have fmt: "\<exists>out. getFormattedTotalDuration s = Some (Tracked out) \<and>
              out =
                (if 3600 \<le> sum_list ds
                 then toString_nat (nat (sum_list ds) div 3600) @ '':'' @
                      two_digits (nat (sum_list ds) div 60 mod 60) @ '':'' @
                      two_digits (nat (sum_list ds) mod 60)
                 else toString_nat (nat (sum_list ds) div 60) @ '':'' @
                      two_digits (nat (sum_list ds) mod 60)) \<and>
              (if 3600 \<le> sum_list ds then shape_H_MM_SS out else shape_M_SS out)"
      if nn: "0 \<le> sum_list ds"
    proof -
      obtain n where n: "sum_list ds = int n" using nn nonneg_int_cases by blast
      have nb: "n \<le> 9007199254740991" using sf n by (simp add: isSafeInteger_def)
      let ?out = "if 3600 \<le> n
          then toString_nat (n div 3600) @ '':'' @ two_digits (n div 60 mod 60) @ '':'' @
               two_digits (n mod 60)
          else toString_nat (n div 60) @ '':'' @ two_digits (n mod 60)"
      have f: "getFormattedTotalDuration s = Some (Tracked ?out)"
        using tot formatTotal_nat [OF nb] unfolding n
        by (simp add: getFormattedTotalDuration_def)
      have d1: "digits (two_digits (n div 60 mod 60))" by (intro digits_two_digits) simp
      have d2: "digits (two_digits (n mod 60))" by (intro digits_two_digits) simp
      have sh: "if 3600 \<le> n then shape_H_MM_SS ?out else shape_M_SS ?out"
        using shape_H_MM_SS_I [OF digits_toString_nat d1 _ d2, of "n div 3600"]
          shape_M_SS_I [OF digits_toString_nat d2, of "n div 60"]
        by simp
      show ?thesis
      proof (cases "3600 \<le> n")
        case True
        then show ?thesis unfolding n using f sh by (intro exI [of _ ?out]) simp
      next
        case False
        then show ?thesis unfolding n using f sh by (intro exI [of _ ?out]) simp
      qed
    qed
    show ?thesis using tot fmt by blast
  qed
  have B: "getTotalDuration s = Some (Tracked 433) \<and>
        getFormattedTotalDuration s = Some (Tracked ''7:13'')"
    if h: "map (\<lambda>a. duration (heap s ! a)) r = [Tracked 233, Tracked 200]"
  proof -
    have "foldl js_add (Tracked 0) [Tracked 233, Tracked 200] = Tracked 433"
      by (simp add: js_add_def isSafeInteger_def)
    then have "getTotalDuration s = Some (Tracked 433)" using t h by simp
    then show ?thesis using formatTotal_433 by (simp add: getFormattedTotalDuration_def)
  qed
  show ?thesis using g A B by blast
qed

text \<open>
  The container holding the tracks A (233 seconds) and B (200 seconds).
\<close>

theorem C9_witness:
  "reachable demo_pair \<and> getAllTracks demo_pair = Some [0, 1] \<and>
   map (\<lambda>a. duration (heap demo_pair ! a)) [0, 1] = map Tracked [233, 200] \<and>
   isSafeInteger 233 \<and> isSafeInteger 200 \<and> isSafeInteger (233 + 200) \<and>
   getTotalDuration demo_pair = Some (Tracked 433) \<and>
   getFormattedTotalDuration demo_pair = Some (Tracked ''7:13'') \<and> shape_M_SS ''7:13''"
proof -
  have d: "map (\<lambda>a. duration (heap demo_pair ! a)) [0, 1] = map Tracked [233, 200]"
    by (simp add: demo_pair_def demo_node_def)
  have s1: "\<forall>d\<in>set [233, 200 :: int]. isSafeInteger d" by (simp add: isSafeInteger_def)
  have s2: "\<forall>k\<le>length [233, 200 :: int]. isSafeInteger (sum_list (take k [233, 200]))"
  proof (intro allI impI)
    fix k :: nat assume "k \<le> length [233, 200 :: int]"
    then consider "k = 0" | "k = 1" | "k = 2" by fastforce
    then show "isSafeInteger (sum_list (take k [233, 200]))"
      by cases (simp_all add: isSafeInteger_def)
  qed
  obtain r where r: "getAllTracks demo_pair = Some r"
    "\<forall>ds. map (\<lambda>a. duration (heap demo_pair ! a)) r = map Tracked ds \<and>
           (\<forall>d\<in>set ds. isSafeInteger d) \<and>
           (\<forall>k\<le>length ds. isSafeInteger (sum_list (take k ds))) \<longrightarrow>
        getTotalDuration demo_pair = Some (Tracked (sum_list ds)) \<and>
        (0 \<le> sum_list ds \<longrightarrow>
           (\<exists>out. getFormattedTotalDuration demo_pair = Some (Tracked out) \<and>
              out =
                (if 3600 \<le> sum_list ds
                 then toString_nat (nat (sum_list ds) div 3600) @ '':'' @
                      two_digits (nat (sum_list ds) div 60 mod 60) @ '':'' @
                      two_digits (nat (sum_list ds) mod 60)
                 else toString_nat (nat (sum_list ds) div 60) @ '':'' @
                      two_digits (nat (sum_list ds) mod 60)) \<and>
              (if 3600 \<le> sum_list ds then shape_H_MM_SS out else shape_M_SS out)))"
    using C9_total_duration [OF demo_pair_reachable] by blast
  have re: "r = [0, 1]" using r(1) demo_pair_getAllTracks by simp
  have c: "getTotalDuration demo_pair = Some (Tracked (sum_list [233, 200])) \<and>
        (0 \<le> sum_list [233, 200 :: int] \<longrightarrow>
           (\<exists>out. getFormattedTotalDuration demo_pair = Some (Tracked out) \<and>
              out =
                (if 3600 \<le> sum_list [233, 200 :: int]
                 then toString_nat (nat (sum_list [233, 200]) div 3600) @ '':'' @
                      two_digits (nat (sum_list [233, 200]) div 60 mod 60) @ '':'' @
                      two_digits (nat (sum_list [233, 200]) mod 60)
                 else toString_nat (nat (sum_list [233, 200]) div 60) @ '':'' @
                      two_digits (nat (sum_list [233, 200]) mod 60)) \<and>
              (if 3600 \<le> sum_list [233, 200 :: int] then shape_H_MM_SS out else shape_M_SS out)))"
    using r(2) d s1 s2 unfolding re by blast
  have t: "getTotalDuration demo_pair = Some (Tracked 433)" using c by simp
  then have f: "getFormattedTotalDuration demo_pair = Some (Tracked ''7:13'')"
    using formatTotal_433 by (simp add: getFormattedTotalDuration_def)
  obtain out where "getFormattedTotalDuration demo_pair = Some (Tracked out)" "shape_M_SS out"
    using c by auto
  then have "shape_M_SS ''7:13''" using f by simp
  then show ?thesis using demo_pair_reachable demo_pair_getAllTracks d t f
    by (simp add: isSafeInteger_def)
qed

text \<open>
  C10. \<open>searchTracks\<close> with the empty string returns exactly what \<open>getAllTracks()\<close>
  returns, for every state of the container: the empty string is included in every title,
  so every track matches, whatever its other fields are.
\<close>

theorem C10_search_empty_query: "searchTracks [] s = getAllTracks s"
  by (cases "getAllTracks s") (simp_all add: searchTracks_def toLowerCase_def Let_def)

end
